theory Spec2Isabelle
  imports
    Main
    "HOL-Library.Word"
    "HOL-Library.Char_ord"
    "HOL-Library.List_Lexorder"
begin

section \<open>The STO tracking client (sto/client.go)\<close>

text \<open>
  A shallow embedding of \<^verbatim>\<open>sto/client.go\<close>. Go strings are byte sequences and are
  modelled as \<^typ>\<open>string\<close>; Go's \<^verbatim>\<open>int\<close> and \<^verbatim>\<open>time.Duration\<close> are modelled as
  64-bit words (the width of \<^verbatim>\<open>int\<close> on 64-bit platforms), read as two's complement by
  \<^const>\<open>sint\<close> and compared with the signed orders. Everything the code does beyond
  returning a value (HTTP exchanges, sleeps, output of the debug mode, lock operations and
  reads of the fields the lock is meant to protect) is recorded in a list of events.
\<close>

subsection \<open>Values of the Go runtime\<close>

type_synonym go_int = "64 word"
type_synonym Duration = "64 word"

definition Second :: Duration where
  "Second = 1000000000"

definition BaseURL :: string where
  "BaseURL = ''https://cloudinter-linkgateway.sto.cn/gateway/link.do''"

definition DefaultTimeout :: Duration where
  "DefaultTimeout = 30 * Second"

definition DefaultMaxRetries :: go_int where
  "DefaultMaxRetries = 3"

definition MaxInt :: go_int where
  "MaxInt = 9223372036854775807"

text \<open>The verb \<^verbatim>\<open>%d\<close> of package fmt: a decimal numeral, with a sign when negative.\<close>

fun digits :: "nat \<Rightarrow> string" where
  "digits n =
     (if n < 10 then [char_of (48 + n)]
      else digits (n div 10) @ [char_of (48 + n mod 10)])"

declare digits.simps [simp del]

definition itoa :: "int \<Rightarrow> string" where
  "itoa i = (if i < 0 then CHR ''-'' # digits (nat (- i)) else digits (nat i))"

definition nl :: string where
  "nl = [CHR 0x0A]"

subsection \<open>Standard library: base64 and URL query encoding\<close>

text \<open>\<^verbatim>\<open>base64.StdEncoding.EncodeToString\<close>: three bytes become four characters of the
  standard alphabet, and the last group is padded with \<^verbatim>\<open>=\<close>.\<close>

definition b64_alphabet :: string where
  "b64_alphabet = ''ABCDEFGHIJKLMNOPQRSTUVWXYZabcdefghijklmnopqrstuvwxyz0123456789+/''"

definition b64_char :: "nat \<Rightarrow> char" where
  "b64_char n = b64_alphabet ! (n mod 64)"

fun EncodeToString :: "string \<Rightarrow> string" where
  "EncodeToString (a # b # c # rest) =
     (let n = of_char a * 65536 + of_char b * 256 + of_char c in
      b64_char (n div 262144) # b64_char (n div 4096) # b64_char (n div 64) # b64_char n
        # EncodeToString rest)"
| "EncodeToString [a, b] =
     (let n = of_char a * 65536 + of_char b * 256 in
      [b64_char (n div 262144), b64_char (n div 4096), b64_char (n div 64), CHR ''=''])"
| "EncodeToString [a] =
     (let n = of_char a * 65536 in
      [b64_char (n div 262144), b64_char (n div 4096), CHR ''='', CHR ''=''])"
| "EncodeToString [] = []"

text \<open>\<^verbatim>\<open>url.QueryEscape\<close>: letters, digits and \<^verbatim>\<open>- _ . ~\<close> stay, a space becomes
  \<^verbatim>\<open>+\<close>, every other byte becomes \<^verbatim>\<open>%XX\<close> in upper-case hexadecimal.\<close>

definition upperhex :: string where
  "upperhex = ''0123456789ABCDEF''"

definition shouldEscape :: "char \<Rightarrow> bool" where
  "shouldEscape c =
     (let n = (of_char c :: nat) in
      \<not> ((97 \<le> n \<and> n \<le> 122) \<or> (65 \<le> n \<and> n \<le> 90) \<or> (48 \<le> n \<and> n \<le> 57)
         \<or> c = CHR ''-'' \<or> c = CHR ''_'' \<or> c = CHR ''.'' \<or> c = CHR ''~''))"

fun QueryEscape :: "string \<Rightarrow> string" where
  "QueryEscape [] = []"
| "QueryEscape (c # cs) =
     (if c = CHR '' '' then [CHR ''+'']
      else if shouldEscape c
        then [CHR ''%'', upperhex ! (of_char c div 16), upperhex ! (of_char c mod 16)]
      else [c]) @ QueryEscape cs"

text \<open>\<^verbatim>\<open>url.Values\<close> is a map from a key to the list of its values; it is kept here as
  an association list with distinct keys. \<^verbatim>\<open>Add\<close> appends a value to the key's list,
  and \<^verbatim>\<open>Encode\<close> writes \<^verbatim>\<open>key=value\<close> pairs joined by \<^verbatim>\<open>&\<close>, sorted by key.\<close>

type_synonym Values = "(string \<times> string list) list"

fun Add :: "string \<Rightarrow> string \<Rightarrow> Values \<Rightarrow> Values" where
  "Add key val [] = [(key, [val])]"
| "Add key val ((k, vs) # rest) =
     (if k = key then (k, vs @ [val]) # rest else (k, vs) # Add key val rest)"

fun join :: "string \<Rightarrow> string list \<Rightarrow> string" where
  "join sep [] = []"
| "join sep [x] = x"
| "join sep (x # y # ys) = x @ sep @ join sep (y # ys)"

definition Encode :: "Values \<Rightarrow> string" where
  "Encode v =
     join ''&''
       (concat (map (\<lambda>(k, vs). map (\<lambda>x. QueryEscape k @ ''='' @ QueryEscape x) vs)
                    (sort_key fst v)))"

subsection \<open>Requests and responses\<close>

text \<open>A Go slice is \<^verbatim>\<open>nil\<close> (here \<^const>\<open>None\<close>) or a sequence of elements; \<^verbatim>\<open>len\<close>
  of a nil slice is 0.\<close>

definition len :: "'a list option \<Rightarrow> nat" where
  "len s = (case s of None \<Rightarrow> 0 | Some xs \<Rightarrow> length xs)"

record TraceQueryRequest =
  Order :: string
  WaybillNoList :: "string list option"

definition Validate :: "TraceQueryRequest \<Rightarrow> string option" where
  "Validate r =
     (if len (WaybillNoList r) = 0 then Some ''waybillNoList cannot be empty''
      else if Order r \<noteq> '''' \<and> Order r \<noteq> ''asc'' \<and> Order r \<noteq> ''desc''
        then Some (''order must be either '' @ [CHR 0x27] @ ''asc'' @ [CHR 0x27]
                   @ '' or '' @ [CHR 0x27] @ ''desc'' @ [CHR 0x27])
      else None)"

record TraceInfo =
  WaybillNo :: string
  OpTime :: string
  OpOrgCode :: string
  OpOrgName :: string
  OpOrgProvinceName :: string
  OpOrgCityName :: string
  OpOrgTel :: string
  OpEmpCode :: string
  OpEmpName :: string
  ScanType :: string
  Weight :: string
  Memo :: string
  BizEmpCode :: string
  BizEmpName :: string
  BizEmpPhone :: string
  BizEmpTel :: string
  NextOrgName :: string
  NextOrgCode :: string
  IssueName :: string
  SignoffPeople :: string
  ContainerNo :: string
  OrderOrgCode :: string
  OrderOrgName :: string
  TransportTaskNo :: string
  CarNo :: string
  OpOrgTypeCode :: string
  PartnerName :: string

record TraceQueryResponse =
  Success :: string
  ErrorCode :: string
  ErrorMsg :: string
  NeedRetry :: string
  RequestId :: string
  ExpInfo :: string
  Data :: "string \<rightharpoonup> TraceInfo list"

definition IsSuccess :: "TraceQueryResponse \<Rightarrow> bool" where
  "IsSuccess r = (Success r = ''true'')"

definition ShouldRetry :: "TraceQueryResponse \<Rightarrow> bool" where
  "ShouldRetry r = (NeedRetry r = ''true'')"

subsection \<open>What is taken from outside the repository\<close>

text \<open>
  The functions of Go's standard library whose results the code only passes on are
  parameters of the model: the MD5 digest, the encoding of a Go string as a JSON string
  literal, the decoding of a response body (\<^const>\<open>Inl\<close> carries the decoder's error
  text), and the check \<^verbatim>\<open>http.NewRequest\<close> makes of its method and URL (\<^const>\<open>Some\<close>
  carries its error text).
\<close>

record stdlib =
  md5_Sum :: "string \<Rightarrow> string"
  json_String :: "string \<Rightarrow> string"
  json_Unmarshal :: "string \<Rightarrow> string + TraceQueryResponse"
  http_NewRequest :: "string \<Rightarrow> string \<Rightarrow> string option"

text \<open>
  An HTTP exchange is \<^verbatim>\<open>client.Do\<close> followed by \<^verbatim>\<open>io.ReadAll\<close> of the body. It either
  fails in \<^verbatim>\<open>Do\<close>, fails while the body is read, or gives a status code and the whole
  body. The transport handle is a function on the state \<open>'w\<close> of the world outside.
\<close>

record http_request =
  Method :: string
  URL :: string
  Header :: "(string \<times> string) list"

datatype http_result =
    DoError string
  | ReadError string
  | Response int string

type_synonym 'w transport = "'w \<Rightarrow> http_request \<Rightarrow> http_result \<times> 'w"

subsection \<open>The client\<close>

record 'w Client =
  AppKey :: string
  AppSecret :: string
  FromCode :: string
  Debug :: bool
  httpClient :: "'w transport option"
  timeout :: Duration
  maxRetries :: go_int

type_synonym 'w ClientOption = "'w Client \<Rightarrow> 'w Client"

definition WithTimeout :: "Duration \<Rightarrow> 'w ClientOption" where
  "WithTimeout t = (\<lambda>c. c\<lparr>timeout := t\<rparr>)"

definition WithMaxRetries :: "go_int \<Rightarrow> 'w ClientOption" where
  "WithMaxRetries n = (\<lambda>c. c\<lparr>maxRetries := n\<rparr>)"

definition WithHTTPClient :: "'w transport option \<Rightarrow> 'w ClientOption" where
  "WithHTTPClient h = (\<lambda>c. c\<lparr>httpClient := h\<rparr>)"

text \<open>\<open>net\<close> stands for the client \<^verbatim>\<open>&http.Client{Timeout: c.timeout}\<close> of package
  net/http, created when no option has set one.\<close>

definition NewClient ::
  "(Duration \<Rightarrow> 'w transport) \<Rightarrow> string \<Rightarrow> string \<Rightarrow> string \<Rightarrow> 'w ClientOption list \<Rightarrow> 'w Client"
where
  "NewClient net appKey appSecret fromCode opts =
     (let c = fold (\<lambda>opt c. opt c) opts
                \<lparr>AppKey = appKey, AppSecret = appSecret, FromCode = fromCode,
                 Debug = False, httpClient = None, timeout = DefaultTimeout,
                 maxRetries = DefaultMaxRetries\<rparr>
      in if httpClient c = None then c\<lparr>httpClient := Some (net (timeout c))\<rparr> else c)"

subsection \<open>Events\<close>

datatype field = DebugField | HTTPClientField

datatype event =
    Lock | Unlock | RLock | RUnlock
  | Read field
  | Write field
  | Printf string
  | Do http_request http_result
  | Sleep Duration

definition EnableDebug :: "'w Client \<Rightarrow> 'w Client \<times> event list" where
  "EnableDebug c = (c\<lparr>Debug := True\<rparr>, [Lock, Write DebugField, Unlock])"

definition DisableDebug :: "'w Client \<Rightarrow> 'w Client \<times> event list" where
  "DisableDebug c = (c\<lparr>Debug := False\<rparr>, [Lock, Write DebugField, Unlock])"

subsection \<open>Errors\<close>

text \<open>Every error of the code is made by \<^verbatim>\<open>fmt.Errorf\<close>; a constructor stands for each
  format string and \<open>Error\<close> gives the text.\<close>

datatype error =
    InvalidRequest string
  | MarshalFailed string
  | CreateRequestFailed string
  | RequestFailed string
  | ReadResponseFailed string
  | Non200Status int string
  | UnmarshalFailed string string

fun Error :: "error \<Rightarrow> string" where
  "Error (InvalidRequest e) = ''invalid request: '' @ e"
| "Error (MarshalFailed e) = ''marshal request failed: '' @ e"
| "Error (CreateRequestFailed e) = ''create request failed: '' @ e"
| "Error (RequestFailed e) = ''request failed: '' @ e"
| "Error (ReadResponseFailed e) = ''read response failed: '' @ e"
| "Error (Non200Status status body) =
     ''API returned non-200 status code: '' @ itoa status @ '', body: '' @ body"
| "Error (UnmarshalFailed e body) =
     ''unmarshal response failed: '' @ e @ '', body: '' @ body"

subsection \<open>One HTTP attempt\<close>

definition UserAgent :: string where
  "UserAgent = ''Mozilla/5.0 (compatible; Googlebot/2.1; +http://www.google.com/bot.html)''"

text \<open>\<^verbatim>\<open>doRequest\<close>. The result is \<^const>\<open>None\<close> when the call does not return: a nil
  transport handle makes \<^verbatim>\<open>client.Do\<close> panic.\<close>

definition doRequest ::
  "stdlib \<Rightarrow> 'w Client \<Rightarrow> string \<Rightarrow> string \<Rightarrow> string \<Rightarrow> 'w
     \<Rightarrow> ((error + TraceQueryResponse) \<times> 'w \<times> event list) option"
where
  "doRequest L c requestURL content dataDigest w =
     (let evs0 = Read DebugField #
                 (if Debug c
                  then [Printf (''Request URL: '' @ requestURL @ nl),
                        Printf (''Content: '' @ content @ nl),
                        Printf (''Data Digest: '' @ dataDigest @ nl)]
                  else [])
      in case http_NewRequest L ''GET'' requestURL of
           Some e \<Rightarrow> Some (Inl (CreateRequestFailed e), w, evs0)
         | None \<Rightarrow>
             (let req = \<lparr>Method = ''GET'', URL = requestURL,
                         Header = [(''User-Agent'', UserAgent)]\<rparr>;
                  evs1 = evs0 @ [RLock, Read HTTPClientField, Read DebugField, RUnlock];
                  debug = Debug c
              in case httpClient c of
                   None \<Rightarrow> None
                 | Some client \<Rightarrow>
                     (case client w req of
                        (DoError e, w') \<Rightarrow>
                          Some (Inl (RequestFailed e), w', evs1 @ [Do req (DoError e)])
                      | (ReadError e, w') \<Rightarrow>
                          Some (Inl (ReadResponseFailed e), w', evs1 @ [Do req (ReadError e)])
                      | (Response status body, w') \<Rightarrow>
                          (let evs2 = evs1 @ [Do req (Response status body)] @
                                 (if debug
                                  then [Printf (''Response Status: '' @ itoa status @ nl),
                                        Printf (''Response Body: '' @ body @ nl)]
                                  else [])
                           in if status \<noteq> 200
                              then Some (Inl (Non200Status status body), w', evs2)
                              else (case json_Unmarshal L body of
                                      Inl e \<Rightarrow> Some (Inl (UnmarshalFailed e body), w', evs2)
                                    | Inr result \<Rightarrow> Some (Inr result, w', evs2))))))"

subsection \<open>QueryTrace\<close>

text \<open>\<^verbatim>\<open>json.Marshal\<close> of a \<^verbatim>\<open>TraceQueryRequest\<close>: an object with the fields in the order
  of the struct, under the names of their tags; a nil slice is written \<^verbatim>\<open>null\<close>. The
  encoder has no error for a struct of a string and a slice of strings, so the error of
  the pair it returns is always nil.\<close>

definition encode_request :: "stdlib \<Rightarrow> TraceQueryRequest \<Rightarrow> string" where
  \<open>encode_request L r =
     ''{"order":'' @ json_String L (Order r) @ '',"waybillNoList":'' @
     (case WaybillNoList r of
        None \<Rightarrow> ''null''
      | Some ws \<Rightarrow> ''['' @ join '','' (map (json_String L) ws) @ '']'') @
     ''}''\<close>

definition json_Marshal :: "stdlib \<Rightarrow> TraceQueryRequest \<Rightarrow> string + string" where
  "json_Marshal L r = Inr (encode_request L r)"

text \<open>The signature: the base64 text of the MD5 digest of the content followed by the
  secret.\<close>

definition sign :: "stdlib \<Rightarrow> 'w Client \<Rightarrow> string \<Rightarrow> string" where
  "sign L c content = EncodeToString (md5_Sum L (content @ AppSecret c))"

definition build_params :: "'w Client \<Rightarrow> string \<Rightarrow> string \<Rightarrow> Values" where
  "build_params c content dataDigest =
     Add ''api_name'' ''STO_TRACE_QUERY_COMMON''
       (Add ''to_code'' ''sto_trace_query''
         (Add ''to_appkey'' ''sto_trace_query''
           (Add ''from_code'' (FromCode c)
             (Add ''from_appkey'' (AppKey c)
               (Add ''data_digest'' dataDigest
                 (Add ''content'' content []))))))"

definition build_url :: "'w Client \<Rightarrow> string \<Rightarrow> string \<Rightarrow> string" where
  "build_url c content dataDigest = BaseURL @ ''?'' @ Encode (build_params c content dataDigest)"

text \<open>The body of the retry loop at the index \<open>i\<close>. The announcement of a retry reads
  the debug flag only when \<open>i > 0\<close>; the backoff sleeps \<open>i + 1\<close> seconds, computed in
  the 64 bits of a \<^verbatim>\<open>time.Duration\<close>, unless the index is the last one.\<close>

definition announce :: "'w Client \<Rightarrow> go_int \<Rightarrow> event list" where
  "announce c i =
     (if 0 <s i
      then Read DebugField #
           (if Debug c
            then [Printf (''Retrying request (attempt '' @ itoa (sint i) @ ''/''
                          @ itoa (sint (maxRetries c)) @ '')'' @ nl)]
            else [])
      else [])"

definition backoff :: "'w Client \<Rightarrow> go_int \<Rightarrow> event list" where
  "backoff c i = (if i <s maxRetries c then [Sleep ((i + 1) * Second)] else [])"

type_synonym outcome = "TraceQueryResponse option \<times> error option"

text \<open>The loop \<^verbatim>\<open>for i := 0; i <= c.maxRetries; i++\<close> from the index \<open>i\<close> on, with the
  current values of \<^verbatim>\<open>resp\<close> and \<^verbatim>\<open>lastErr\<close>, the state of the world and the events so
  far. The index wraps around as a Go \<^verbatim>\<open>int\<close> does, so the loop need not end: the result
  is \<^const>\<open>None\<close> when the call does not return.\<close>

partial_function (option) retry_loop ::
  "stdlib \<Rightarrow> 'w Client \<Rightarrow> string \<Rightarrow> string \<Rightarrow> string \<Rightarrow> go_int \<Rightarrow> outcome \<Rightarrow> 'w \<Rightarrow> event list
     \<Rightarrow> (outcome \<times> 'w \<times> event list) option"
where
  "retry_loop L c requestURL content dataDigest i prev w evs =
     (if i \<le>s maxRetries c then
        (case doRequest L c requestURL content dataDigest w of
           None \<Rightarrow> None
         | Some (Inr resp, w', evs') \<Rightarrow>
             if \<not> ShouldRetry resp
             then Some ((Some resp, None), w', evs @ announce c i @ evs')
             else retry_loop L c requestURL content dataDigest (i + 1) (Some resp, None) w'
                    (evs @ announce c i @ evs' @ backoff c i)
         | Some (Inl err, w', evs') \<Rightarrow>
             retry_loop L c requestURL content dataDigest (i + 1) (None, Some err) w'
               (evs @ announce c i @ evs' @ backoff c i))
      else Some (prev, w, evs))"

declare retry_loop.simps [code]

definition QueryTrace ::
  "stdlib \<Rightarrow> 'w Client \<Rightarrow> TraceQueryRequest \<Rightarrow> 'w \<Rightarrow> (outcome \<times> 'w \<times> event list) option"
where
  "QueryTrace L c req w =
     (case Validate req of
        Some err \<Rightarrow> Some ((None, Some (InvalidRequest err)), w, [])
      | None \<Rightarrow>
          (case json_Marshal L req of
             Inl err \<Rightarrow> Some ((None, Some (MarshalFailed err)), w, [])
           | Inr content \<Rightarrow>
               (let dataDigest = sign L c content;
                    requestURL = build_url c content dataDigest
                in retry_loop L c requestURL content dataDigest 0 (None, None) w [])))"

section \<open>Reading a run\<close>

text \<open>
  The definitions of this section are not part of the program: they name what the
  theorems speak about (the exchanges and sleeps of a trace, the outcome of one exchange,
  the run of a transport stub), give the retry loop a form with a bounded number of
  rounds for the proofs, and fix the inputs at which the theorems are instantiated.
\<close>

subsection \<open>Outcomes of an attempt\<close>

text \<open>The result of an attempt as the loop stores it in \<^verbatim>\<open>resp\<close> and \<^verbatim>\<open>lastErr\<close>, and the
  test \<^verbatim>\<open>lastErr == nil && !resp.ShouldRetry()\<close> that ends the loop.\<close>

definition settle :: "error + TraceQueryResponse \<Rightarrow> outcome" where
  "settle res = (case res of Inl err \<Rightarrow> (None, Some err) | Inr resp \<Rightarrow> (Some resp, None))"

definition final :: "error + TraceQueryResponse \<Rightarrow> bool" where
  "final res = (case res of Inl err \<Rightarrow> False | Inr resp \<Rightarrow> \<not> ShouldRetry resp)"

text \<open>The request \<^verbatim>\<open>doRequest\<close> sends to a URL, and what it makes of the result of the
  exchange (lines 249 to 275 of the source).\<close>

definition sent :: "string \<Rightarrow> http_request" where
  "sent u = \<lparr>Method = ''GET'', URL = u, Header = [(''User-Agent'', UserAgent)]\<rparr>"

definition decode :: "stdlib \<Rightarrow> http_result \<Rightarrow> error + TraceQueryResponse" where
  "decode L x =
     (case x of
        DoError e \<Rightarrow> Inl (RequestFailed e)
      | ReadError e \<Rightarrow> Inl (ReadResponseFailed e)
      | Response status body \<Rightarrow>
          if status \<noteq> 200 then Inl (Non200Status status body)
          else (case json_Unmarshal L body of
                  Inl e \<Rightarrow> Inl (UnmarshalFailed e body)
                | Inr result \<Rightarrow> Inr result))"

text \<open>The URL \<^verbatim>\<open>QueryTrace\<close> computes for a request, and the value of a call of
  \<^verbatim>\<open>doRequest\<close> that returns.\<close>

definition request_url :: "stdlib \<Rightarrow> 'w Client \<Rightarrow> TraceQueryRequest \<Rightarrow> string" where
  "request_url L c req =
     build_url c (encode_request L req) (sign L c (encode_request L req))"

definition attempt ::
  "stdlib \<Rightarrow> 'w Client \<Rightarrow> string \<Rightarrow> string \<Rightarrow> string \<Rightarrow> 'w
     \<Rightarrow> (error + TraceQueryResponse) \<times> 'w \<times> event list"
where
  "attempt L c u ct dg w = the (doRequest L c u ct dg w)"

definition tries ::
  "stdlib \<Rightarrow> 'w Client \<Rightarrow> TraceQueryRequest \<Rightarrow> 'w
     \<Rightarrow> (error + TraceQueryResponse) \<times> 'w \<times> event list"
where
  "tries L c req =
     attempt L c (request_url L c req) (encode_request L req) (sign L c (encode_request L req))"

subsection \<open>Traces\<close>

text \<open>The exchanges of a trace with their results, its sleeps, and both in their order.\<close>

fun exchanges :: "event list \<Rightarrow> (http_request \<times> http_result) list" where
  "exchanges [] = []"
| "exchanges (Do rq x # es) = (rq, x) # exchanges es"
| "exchanges (e # es) = exchanges es"

fun pauses :: "event list \<Rightarrow> Duration list" where
  "pauses [] = []"
| "pauses (Sleep d # es) = d # pauses es"
| "pauses (e # es) = pauses es"

fun io :: "event list \<Rightarrow> event list" where
  "io [] = []"
| "io (Do rq x # es) = Do rq x # io es"
| "io (Sleep d # es) = Sleep d # io es"
| "io (e # es) = io es"

text \<open>The schedule of linear backoff for a list of exchanges, the first of them made at
  the loop index \<open>j\<close>: an exchange, then for each further exchange a sleep and the
  exchange, the sleep after the exchange of index \<open>j\<close> being \<open>j + 1\<close> seconds in the 64
  bits of a \<^verbatim>\<open>time.Duration\<close>. Nothing comes before the first exchange or after the last.\<close>

fun weave :: "nat \<Rightarrow> (http_request \<times> http_result) list \<Rightarrow> event list" where
  "weave j [] = []"
| "weave j [(rq, x)] = [Do rq x]"
| "weave j ((rq, x) # y # ys) =
     Do rq x # Sleep (of_nat (Suc j) * Second) # weave (Suc j) (y # ys)"

text \<open>What \<^verbatim>\<open>returned\<close> and \<^verbatim>\<open>trace_of\<close> read from a call: the pair it returns, and its
  events (none when the call does not return).\<close>

definition returned :: "(outcome \<times> 'w \<times> event list) option \<Rightarrow> outcome option" where
  "returned x = (case x of None \<Rightarrow> None | Some (r, w, evs) \<Rightarrow> Some r)"

definition trace_of :: "(outcome \<times> 'w \<times> event list) option \<Rightarrow> event list" where
  "trace_of x = (case x of None \<Rightarrow> [] | Some (r, w, evs) \<Rightarrow> evs)"

text \<open>The lock discipline: every read and write of the debug flag and of the transport
  handle happens while the lock is held (\<open>held\<close> tells whether it is at the start of
  the trace).\<close>

fun guarded :: "bool \<Rightarrow> event list \<Rightarrow> bool" where
  "guarded held [] = True"
| "guarded held (Lock # es) = guarded True es"
| "guarded held (RLock # es) = guarded True es"
| "guarded held (Unlock # es) = guarded False es"
| "guarded held (RUnlock # es) = guarded False es"
| "guarded held (Read x # es) = (held \<and> guarded held es)"
| "guarded held (Write x # es) = (held \<and> guarded held es)"
| "guarded held (e # es) = guarded held es"

subsection \<open>Transport stubs\<close>

text \<open>A transport stub answers the same request again and again, from the state \<open>w\<close> on:
  the state after \<open>p\<close> exchanges, and the result of the exchange of index \<open>p\<close>
  (the first exchange has index 0).\<close>

fun world_after :: "'w transport \<Rightarrow> http_request \<Rightarrow> nat \<Rightarrow> 'w \<Rightarrow> 'w" where
  "world_after tr rq 0 w = w"
| "world_after tr rq (Suc p) w = world_after tr rq p (snd (tr w rq))"

definition result_at :: "'w transport \<Rightarrow> http_request \<Rightarrow> nat \<Rightarrow> 'w \<Rightarrow> http_result" where
  "result_at tr rq p w = fst (tr (world_after tr rq p w) rq)"

subsection \<open>The loop, a bounded number of rounds at a time\<close>

text \<open>
  \<open>unroll f c k j\<close> runs at most \<open>k\<close> rounds of the loop from the index \<open>j\<close>, with \<open>f\<close>
  for the attempt and with the index and the number of rounds left as natural numbers;
  \<open>stops f k w\<close> tells whether one of these rounds ends the loop by its \<^verbatim>\<open>break\<close>. The lemma
  \<open>retry_loop_unroll\<close> below shows that the loop of the program is \<open>unroll\<close> whenever
  the rounds end in a \<^verbatim>\<open>break\<close> or use up the retries of a client whose \<^verbatim>\<open>maxRetries\<close> is
  not the largest \<^verbatim>\<open>int\<close>.
\<close>

fun unroll ::
  "('w \<Rightarrow> (error + TraceQueryResponse) \<times> 'w \<times> event list) \<Rightarrow> 'w Client \<Rightarrow> nat \<Rightarrow> nat \<Rightarrow> outcome \<Rightarrow> 'w
     \<Rightarrow> outcome \<times> 'w \<times> event list"
where
  "unroll f c 0 j prev w = (prev, w, [])"
| "unroll f c (Suc k) j prev w =
     (case f w of
        (res, w', evs') \<Rightarrow>
          if final res then (settle res, w', announce c (of_nat j) @ evs')
          else (case unroll f c k (Suc j) (settle res) w' of
                  (r, w'', rest) \<Rightarrow>
                    (r, w'',
                     announce c (of_nat j) @ evs' @
                     (if 0 < k then [Sleep (of_nat (Suc j) * Second)] else []) @ rest)))"

fun stops :: "('w \<Rightarrow> (error + TraceQueryResponse) \<times> 'w \<times> event list) \<Rightarrow> nat \<Rightarrow> 'w \<Rightarrow> bool" where
  "stops f 0 w = False"
| "stops f (Suc k) w = (case f w of (res, w', evs') \<Rightarrow> final res \<or> stops f k w')"

subsection \<open>Inputs for the instances\<close>

text \<open>Two response bodies and what a decoder makes of them, a library whose decoder
  knows these two bodies, four transport stubs (one that always answers with the
  retry hint, one that refuses every connection, one that always answers with the status
  500, one that answers with the retry hint once and with a clean response from then on), a client made by \<^verbatim>\<open>NewClient\<close> and a
  valid request.\<close>

definition hinted_body :: string where
  \<open>hinted_body = ''{"success":"false","errorCode":"009","needRetry":"true"}''\<close>

definition clean_body :: string where
  \<open>clean_body = ''{"success":"true","needRetry":"false","data":{}}''\<close>

definition hinted :: TraceQueryResponse where
  "hinted = \<lparr>Success = ''false'', ErrorCode = ''009'', ErrorMsg = [], NeedRetry = ''true'',
             RequestId = [], ExpInfo = [], Data = Map.empty\<rparr>"

definition clean :: TraceQueryResponse where
  "clean = \<lparr>Success = ''true'', ErrorCode = [], ErrorMsg = [], NeedRetry = ''false'',
            RequestId = [], ExpInfo = [], Data = Map.empty\<rparr>"

definition lib0 :: stdlib where
  "lib0 = \<lparr>md5_Sum = (\<lambda>s. replicate 16 (CHR 0x00)),
           json_String = (\<lambda>s. [CHR 0x22] @ s @ [CHR 0x22]),
           json_Unmarshal = (\<lambda>b. if b = hinted_body then Inr hinted
                                    else if b = clean_body then Inr clean
                                    else Inl ''unexpected end of JSON input''),
           http_NewRequest = (\<lambda>m u. None)\<rparr>"

definition always_hinted :: "unit transport" where
  "always_hinted = (\<lambda>w rq. (Response 200 hinted_body, w))"

definition refusing :: "unit transport" where
  "refusing = (\<lambda>w rq. (DoError ''connection refused'', w))"

definition failing500 :: "unit transport" where
  "failing500 = (\<lambda>w rq. (Response 500 ''oops'', w))"

definition hinted_then_clean :: "nat transport" where
  "hinted_then_clean =
     (\<lambda>n rq. (if n = 0 then Response 200 hinted_body else Response 200 clean_body, Suc n))"

definition client0 :: "'w transport \<Rightarrow> go_int \<Rightarrow> 'w Client" where
  "client0 tr n =
     NewClient (\<lambda>t. tr) ''key'' ''secret'' ''code'' [WithHTTPClient (Some tr), WithMaxRetries n]"

definition req0 :: TraceQueryRequest where
  "req0 = \<lparr>Order = ''asc'', WaybillNoList = Some [''773'']\<rparr>"

section \<open>Lemmas\<close>

subsection \<open>Signed 64-bit arithmetic\<close>

lemma sint_of_nat64: "int j < 2 ^ 63 \<Longrightarrow> sint (of_nat j :: 64 word) = int j"
  by (simp add: signed_of_nat signed_take_bit_int_eq_self)

lemma sint_MaxInt: "sint MaxInt = 2 ^ 63 - 1"
  by (simp add: MaxInt_def)

lemma sint_le_MaxInt: "sint (m :: 64 word) \<le> 2 ^ 63 - 1"
  using sint_lt [of m] by simp

lemma sint_neq_MaxInt: "(m :: 64 word) \<noteq> MaxInt \<Longrightarrow> sint m < 2 ^ 63 - 1"
proof -
  assume "m \<noteq> MaxInt"
  then have "sint m \<noteq> sint MaxInt" by (auto dest: signed_word_eqI)
  then show ?thesis using sint_le_MaxInt [of m] by (simp add: sint_MaxInt)
qed

lemma sle_MaxInt: "i \<le>s MaxInt"
  using sint_le_MaxInt [of i] by (simp add: word_sle_eq sint_MaxInt)

lemma retry_loop_step:
  "retry_loop L c u ct dg i prev w evs =
     (if i \<le>s maxRetries c then
        (case doRequest L c u ct dg w of
           None \<Rightarrow> None
         | Some (res, w', evs') \<Rightarrow>
             if final res then Some (settle res, w', evs @ announce c i @ evs')
             else retry_loop L c u ct dg (i + 1) (settle res) w'
                    (evs @ announce c i @ evs' @ backoff c i))
      else Some (prev, w, evs))"
  by (subst retry_loop.simps)
     (simp add: settle_def final_def split: option.split sum.split prod.split)

lemma retry_loop_unroll:
  assumes f: "\<And>w. doRequest L c u ct dg w = Some (f w)"
    and bound: "int j + int k \<le> sint (maxRetries c) + 1"
    and ends: "stops f k w \<or> (int j + int k = sint (maxRetries c) + 1 \<and> maxRetries c \<noteq> MaxInt)"
  shows "retry_loop L c u ct dg (of_nat j) prev w evs =
           Some (case unroll f c k j prev w of (r, w', rest) \<Rightarrow> (r, w', evs @ rest))"
  using bound ends
proof (induction k arbitrary: j prev w evs)
  case 0
  then have m: "maxRetries c \<noteq> MaxInt" and j: "int j = sint (maxRetries c) + 1"
    by simp_all
  have "int j < 2 ^ 63" using sint_neq_MaxInt [OF m] j by simp
  then have "sint (of_nat j :: 64 word) = int j" by (rule sint_of_nat64)
  then have "\<not> (of_nat j :: 64 word) \<le>s maxRetries c"
    using j by (simp add: word_sle_eq)
  then show ?case
    by (subst retry_loop_step) simp
next
  case (Suc k)
  have le: "int j \<le> sint (maxRetries c)" using Suc.prems(1) by simp
  then have "int j < 2 ^ 63" using sint_le_MaxInt [of "maxRetries c"] by simp
  then have sj: "sint (of_nat j :: 64 word) = int j" by (rule sint_of_nat64)
  then have cond: "(of_nat j :: 64 word) \<le>s maxRetries c"
    using le by (simp add: word_sle_eq)
  obtain res w' evs' where fw: "f w = (res, w', evs')" by (cases "f w")
  show ?case
  proof (cases "final res")
    case True
    then show ?thesis
      using cond fw by (subst retry_loop_step) (simp add: f)
  next
    case False
    then have st: "stops f k w' \<or>
        (int (Suc j) + int k = sint (maxRetries c) + 1 \<and> maxRetries c \<noteq> MaxInt)"
      using Suc.prems(2) fw by auto
    have bd: "int (Suc j) + int k \<le> sint (maxRetries c) + 1"
      using Suc.prems(1) by simp
    have pause: "backoff c (of_nat j) = (if 0 < k then [Sleep (of_nat (Suc j) * Second)] else [])"
    proof (cases k)
      case 0
      then have "int j = sint (maxRetries c)" using st by simp
      then show ?thesis using 0 sj by (simp add: backoff_def word_sless_alt)
    next
      case (Suc k')
      then have "int j < sint (maxRetries c)" using bd by simp
      then show ?thesis using Suc sj by (simp add: backoff_def word_sless_alt add.commute)
    qed
    have "retry_loop L c u ct dg (of_nat j) prev w evs =
            retry_loop L c u ct dg (of_nat (Suc j)) (settle res) w'
              (evs @ announce c (of_nat j) @ evs' @ backoff c (of_nat j))"
      using cond fw False by (subst retry_loop_step) (simp add: f add.commute)
    also have "\<dots> = Some (case unroll f c k (Suc j) (settle res) w' of
        (r, w'', rest) \<Rightarrow> (r, w'', (evs @ announce c (of_nat j) @ evs' @ backoff c (of_nat j)) @ rest))"
      by (rule Suc.IH [OF bd st])
    finally show ?thesis
      using fw False pause by (simp split: prod.split)
  qed
qed

subsection \<open>Traces and single attempts\<close>

lemma exchanges_append: "exchanges (xs @ ys) = exchanges xs @ exchanges ys"
  by (induction xs rule: exchanges.induct) simp_all

lemma pauses_append: "pauses (xs @ ys) = pauses xs @ pauses ys"
  by (induction xs rule: pauses.induct) simp_all

lemma io_append: "io (xs @ ys) = io xs @ io ys"
  by (induction xs rule: io.induct) simp_all

lemma announce_quiet:
  "exchanges (announce c i) = []" "pauses (announce c i) = []" "io (announce c i) = []"
  by (simp_all add: announce_def)

lemma backoff_quiet: "exchanges (backoff c i) = []"
  by (simp add: backoff_def)

lemma attempt_eq:
  assumes "http_NewRequest L ''GET'' u = None" and "httpClient c = Some tr"
  shows "doRequest L c u ct dg w = Some (attempt L c u ct dg w)"
  using assms
  by (simp add: attempt_def doRequest_def Let_def split: prod.split http_result.split sum.split)

lemma attempt_result:
  assumes "http_NewRequest L ''GET'' u = None" and "httpClient c = Some tr"
  shows "fst (attempt L c u ct dg w) = decode L (fst (tr w (sent u)))"
    and "fst (snd (attempt L c u ct dg w)) = snd (tr w (sent u))"
  using assms
  by (simp_all add: attempt_def doRequest_def decode_def sent_def Let_def
        split: prod.split http_result.split sum.split)

lemma attempt_events:
  assumes "http_NewRequest L ''GET'' u = None" and "httpClient c = Some tr"
  shows "exchanges (snd (snd (attempt L c u ct dg w))) = [(sent u, fst (tr w (sent u)))]"
    and "io (snd (snd (attempt L c u ct dg w))) = [Do (sent u) (fst (tr w (sent u)))]"
    and "pauses (snd (snd (attempt L c u ct dg w))) = []"
  using assms
  by (simp_all add: attempt_def doRequest_def sent_def Let_def
        split: prod.split http_result.split sum.split)

subsection \<open>Rounds of the loop\<close>

lemma unroll_Suc_exchanges:
  assumes ok: "http_NewRequest L ''GET'' u = None" and cl: "httpClient c = Some tr"
  shows "exchanges (snd (snd (unroll (attempt L c u ct dg) c (Suc k) j prev w))) \<noteq> []"
proof -
  obtain res w' evs' where a: "attempt L c u ct dg w = (res, w', evs')"
    by (cases "attempt L c u ct dg w")
  have ex: "exchanges evs' = [(sent u, fst (tr w (sent u)))]"
    using attempt_events [OF ok cl, of ct dg w] a by simp
  obtain r w'' rest where
    u: "unroll (attempt L c u ct dg) c k (Suc j) (settle res) w' = (r, w'', rest)"
    by (cases "unroll (attempt L c u ct dg) c k (Suc j) (settle res) w'")
  show ?thesis
    using a ex u by (simp add: exchanges_append announce_quiet)
qed

lemma unroll_io:
  assumes ok: "http_NewRequest L ''GET'' u = None" and cl: "httpClient c = Some tr"
  shows "io (snd (snd (unroll (attempt L c u ct dg) c k j prev w))) =
           weave j (exchanges (snd (snd (unroll (attempt L c u ct dg) c k j prev w))))"
proof (induction k arbitrary: j prev w)
  case 0
  show ?case by simp
next
  case (Suc k)
  obtain res w' evs' where a: "attempt L c u ct dg w = (res, w', evs')"
    by (cases "attempt L c u ct dg w")
  have ex: "exchanges evs' = [(sent u, fst (tr w (sent u)))]"
    and io: "io evs' = [Do (sent u) (fst (tr w (sent u)))]"
    using attempt_events [OF ok cl, of ct dg w] a by simp_all
  show ?case
  proof (cases "final res")
    case True
    then show ?thesis
      using a ex io by (simp add: io_append exchanges_append announce_quiet)
  next
    case False
    obtain r w'' rest where
      u: "unroll (attempt L c u ct dg) c k (Suc j) (settle res) w' = (r, w'', rest)"
      by (cases "unroll (attempt L c u ct dg) c k (Suc j) (settle res) w'")
    have ih: "io rest = weave (Suc j) (exchanges rest)"
      using Suc.IH [of "Suc j" "settle res" w'] u by simp
    show ?thesis
    proof (cases k)
      case 0
      then have "rest = []" using u by simp
      then show ?thesis
        using a False u 0 ex io by (simp add: io_append exchanges_append announce_quiet)
    next
      case (Suc k')
      then have "exchanges rest \<noteq> []"
        using unroll_Suc_exchanges [OF ok cl, of ct dg k' "Suc j" "settle res" w'] u by simp
      then obtain y ys where "exchanges rest = y # ys" by (cases "exchanges rest") auto
      then show ?thesis
        using a False u Suc ex io ih
        by (simp add: io_append exchanges_append announce_quiet)
    qed
  qed
qed

lemma pauses_io: "pauses (io evs) = pauses evs"
  by (induction evs rule: io.induct) simp_all

lemma pauses_weave:
  "pauses (weave j xs) = map (\<lambda>p. of_nat (Suc p) * Second) [j..<j + (length xs - 1)]"
proof (induction j xs rule: weave.induct)
  case (3 j rq x y ys)
  then show ?case by (simp add: upt_rec)
qed simp_all

lemma unroll_always:
  assumes ok: "http_NewRequest L ''GET'' u = None" and cl: "httpClient c = Some tr"
    and never: "\<And>w. \<not> final (decode L (fst (tr w (sent u))))"
  shows "length (exchanges (snd (snd (unroll (attempt L c u ct dg) c k j prev w)))) = k \<and>
         (0 < k \<longrightarrow> fst (unroll (attempt L c u ct dg) c k j prev w) =
             settle (decode L (snd (last (exchanges (snd (snd (unroll (attempt L c u ct dg) c k j prev w))))))))"
proof (induction k arbitrary: j prev w)
  case 0
  show ?case by simp
next
  case (Suc k)
  obtain res w' evs' where a: "attempt L c u ct dg w = (res, w', evs')"
    by (cases "attempt L c u ct dg w")
  have ex: "exchanges evs' = [(sent u, fst (tr w (sent u)))]"
    using attempt_events [OF ok cl, of ct dg w] a by simp
  have res: "res = decode L (fst (tr w (sent u)))"
    using attempt_result [OF ok cl, of ct dg w] a by simp
  then have nf: "\<not> final res" using never by simp
  obtain r w'' rest where
    u: "unroll (attempt L c u ct dg) c k (Suc j) (settle res) w' = (r, w'', rest)"
    by (cases "unroll (attempt L c u ct dg) c k (Suc j) (settle res) w'")
  have ih: "length (exchanges rest) = k"
    "0 < k \<Longrightarrow> r = settle (decode L (snd (last (exchanges rest))))"
    using Suc.IH [of "Suc j" "settle res" w'] u by simp_all
  show ?case
  proof (cases k)
    case 0
    then have "rest = []" "r = settle res" using u by simp_all
    then show ?thesis
      using a nf u 0 ex res by (simp add: exchanges_append announce_quiet)
  next
    case (Suc k')
    then have "exchanges rest \<noteq> []" using ih(1) by auto
    then show ?thesis
      using a nf u Suc ex ih by (simp add: exchanges_append announce_quiet)
  qed
qed

lemma result_at_Suc: "result_at tr rq (Suc p) w = result_at tr rq p (snd (tr w rq))"
  by (simp add: result_at_def)

lemma unroll_script:
  assumes ok: "http_NewRequest L ''GET'' u = None" and cl: "httpClient c = Some tr"
    and before: "\<And>p. p < d \<Longrightarrow> \<not> final (decode L (result_at tr (sent u) p w))"
    and at: "final (decode L (result_at tr (sent u) d w))"
  shows "stops (attempt L c u ct dg) (Suc d) w \<and>
         fst (unroll (attempt L c u ct dg) c (Suc d) j prev w) =
           settle (decode L (result_at tr (sent u) d w)) \<and>
         fst (snd (unroll (attempt L c u ct dg) c (Suc d) j prev w)) =
           world_after tr (sent u) (Suc d) w \<and>
         exchanges (snd (snd (unroll (attempt L c u ct dg) c (Suc d) j prev w))) =
           map (\<lambda>p. (sent u, result_at tr (sent u) p w)) [0..<Suc d]"
  using before at
proof (induction d arbitrary: j prev w)
  case 0
  obtain res w' evs' where a: "attempt L c u ct dg w = (res, w', evs')"
    by (cases "attempt L c u ct dg w")
  have ex: "exchanges evs' = [(sent u, fst (tr w (sent u)))]"
    using attempt_events [OF ok cl, of ct dg w] a by simp
  have res: "res = decode L (fst (tr w (sent u)))" and w': "w' = snd (tr w (sent u))"
    using attempt_result [OF ok cl, of ct dg w] a by simp_all
  have "final res" using 0(2) res by (simp add: result_at_def)
  then show ?case
    using a ex res w' by (simp add: exchanges_append announce_quiet result_at_def)
next
  case (Suc d)
  obtain res w' evs' where a: "attempt L c u ct dg w = (res, w', evs')"
    by (cases "attempt L c u ct dg w")
  have ex: "exchanges evs' = [(sent u, fst (tr w (sent u)))]"
    using attempt_events [OF ok cl, of ct dg w] a by simp
  have res: "res = decode L (fst (tr w (sent u)))" and w': "w' = snd (tr w (sent u))"
    using attempt_result [OF ok cl, of ct dg w] a by simp_all
  have nf: "\<not> final res" using Suc.prems(1) [of 0] res by (simp add: result_at_def)
  have b: "\<And>p. p < d \<Longrightarrow> \<not> final (decode L (result_at tr (sent u) p w'))"
    using Suc.prems(1) w' by (simp add: result_at_Suc [symmetric])
  have e: "final (decode L (result_at tr (sent u) d w'))"
    using Suc.prems(2) w' by (simp add: result_at_Suc)
  note ih = Suc.IH [OF b e, of "Suc j" "settle res"]
  obtain r w'' rest where
    u: "unroll (attempt L c u ct dg) c (Suc d) (Suc j) (settle res) w' = (r, w'', rest)"
    by (cases "unroll (attempt L c u ct dg) c (Suc d) (Suc j) (settle res) w'")
  have list: "map (\<lambda>p. (sent u, result_at tr (sent u) p w)) [0..<Suc (Suc d)] =
      (sent u, fst (tr w (sent u))) # map (\<lambda>p. (sent u, result_at tr (sent u) p w')) [0..<Suc d]"
    by (subst map_upt_Suc) (simp add: result_at_Suc w' result_at_def)
  have "stops (attempt L c u ct dg) (Suc (Suc d)) w" using ih a by simp
  moreover have "fst (unroll (attempt L c u ct dg) c (Suc (Suc d)) j prev w) =
      settle (decode L (result_at tr (sent u) (Suc d) w))"
    using ih a nf u w' by (simp add: result_at_Suc)
  moreover have "fst (snd (unroll (attempt L c u ct dg) c (Suc (Suc d)) j prev w)) =
      world_after tr (sent u) (Suc (Suc d)) w"
    using ih a nf u w' by simp
  moreover have "exchanges (snd (snd (unroll (attempt L c u ct dg) c (Suc (Suc d)) j prev w))) =
      map (\<lambda>p. (sent u, result_at tr (sent u) p w)) [0..<Suc (Suc d)]"
    using ih a nf u ex unfolding list
    by (simp add: exchanges_append announce_quiet)
  ultimately show ?case by blast
qed

subsection \<open>Every run that returns\<close>

lemma doRequest_sound:
  assumes "doRequest L c u ct dg w = Some (res, w', evs')"
  shows "(\<forall>x \<in> set (exchanges evs'). fst x = sent u) \<and> (\<forall>m. res \<noteq> Inl (InvalidRequest m))"
  using assms
  by (auto simp: doRequest_def sent_def Let_def
        split: option.splits prod.splits http_result.splits if_splits sum.splits)

lemma retry_loop_sound:
  assumes "retry_loop L c u ct dg i prev w evs = Some y"
  shows "\<exists>rest. snd (snd y) = evs @ rest \<and>
           (\<forall>x \<in> set (exchanges rest). fst x = sent u) \<and>
           (\<forall>m. snd (fst y) = Some (InvalidRequest m) \<longrightarrow> snd prev = Some (InvalidRequest m))"
proof (rule retry_loop.raw_induct [where P = "\<lambda>L c u ct dg i prev w evs y.
    \<exists>rest. snd (snd y) = evs @ rest \<and>
           (\<forall>x \<in> set (exchanges rest). fst x = sent u) \<and>
           (\<forall>m. snd (fst y) = Some (InvalidRequest m) \<longrightarrow> snd prev = Some (InvalidRequest m))",
    OF _ assms], goal_cases)
  case (1 loop L c u ct dg i prev w evs y)
  show ?case
  proof (cases "i \<le>s maxRetries c")
    case False
    then show ?thesis using 1(2) by auto
  next
    case True
    then obtain res w' evs' where d: "doRequest L c u ct dg w = Some (res, w', evs')"
      using 1(2) by (cases "doRequest L c u ct dg w") auto
    note s = doRequest_sound [OF d]
    show ?thesis
    proof (cases res)
      case (Inl err)
      then have "loop L c u ct dg (i + 1) (None, Some err) w'
                   (evs @ announce c i @ evs' @ backoff c i) = Some y"
        using 1(2) True d by simp
      from 1(1) [OF this] obtain rest where
        r: "snd (snd y) = (evs @ announce c i @ evs' @ backoff c i) @ rest"
           "\<forall>x \<in> set (exchanges rest). fst x = sent u"
           "\<forall>m. snd (fst y) = Some (InvalidRequest m) \<longrightarrow> err = InvalidRequest m"
        by auto
      have "snd (snd y) = evs @ (announce c i @ evs' @ backoff c i @ rest)"
        using r(1) by simp
      moreover have "\<forall>x \<in> set (exchanges (announce c i @ evs' @ backoff c i @ rest)). fst x = sent u"
        using r(2) s by (auto simp: exchanges_append announce_quiet backoff_quiet)
      moreover have "\<forall>m. snd (fst y) \<noteq> Some (InvalidRequest m)"
        using r(3) s Inl by auto
      ultimately show ?thesis by blast
    next
      case (Inr resp)
      show ?thesis
      proof (cases "ShouldRetry resp")
        case False
        then have y: "y = ((Some resp, None), w', evs @ announce c i @ evs')"
          using 1(2) True d Inr by simp
        have "\<forall>x \<in> set (exchanges (announce c i @ evs')). fst x = sent u"
          using s by (auto simp: exchanges_append announce_quiet)
        then show ?thesis using y by auto
      next
        case sr: True
        then have "loop L c u ct dg (i + 1) (Some resp, None) w'
                     (evs @ announce c i @ evs' @ backoff c i) = Some y"
          using 1(2) True d Inr by simp
        from 1(1) [OF this] obtain rest where
          r: "snd (snd y) = (evs @ announce c i @ evs' @ backoff c i) @ rest"
             "\<forall>x \<in> set (exchanges rest). fst x = sent u"
             "\<forall>m. snd (fst y) \<noteq> Some (InvalidRequest m)"
          by auto
        have "snd (snd y) = evs @ (announce c i @ evs' @ backoff c i @ rest)"
          using r(1) by simp
        moreover have "\<forall>x \<in> set (exchanges (announce c i @ evs' @ backoff c i @ rest)). fst x = sent u"
          using r(2) s by (auto simp: exchanges_append announce_quiet backoff_quiet)
        moreover have "\<forall>m. snd (fst y) \<noteq> Some (InvalidRequest m)"
          using r(3) by auto
        ultimately show ?thesis by blast
      qed
    qed
  qed
qed

lemma retry_loop_diverges:
  assumes m: "maxRetries c = MaxInt"
    and never: "\<And>w res w' evs'. doRequest L c u ct dg w = Some (res, w', evs') \<Longrightarrow> \<not> final res"
  shows "retry_loop L c u ct dg i prev w evs = None"
proof (rule ccontr)
  assume "retry_loop L c u ct dg i prev w evs \<noteq> None"
  then obtain y where y: "retry_loop L c u ct dg i prev w evs = Some y" by auto
  have "\<not> (maxRetries c = MaxInt \<and>
           (\<forall>w res w' evs'. doRequest L c u ct dg w = Some (res, w', evs') \<longrightarrow> \<not> final res))"
  proof (rule retry_loop.raw_induct [where P = "\<lambda>L c u ct dg i prev w evs y.
      \<not> (maxRetries c = MaxInt \<and>
           (\<forall>w res w' evs'. doRequest L c u ct dg w = Some (res, w', evs') \<longrightarrow> \<not> final res))",
      OF _ y], goal_cases)
    case (1 loop L c u ct dg i prev w evs y)
    show ?case
    proof
      assume h: "maxRetries c = MaxInt \<and>
           (\<forall>w res w' evs'. doRequest L c u ct dg w = Some (res, w', evs') \<longrightarrow> \<not> final res)"
      then have le: "i \<le>s maxRetries c" by (simp add: sle_MaxInt)
      then obtain res w' evs' where d: "doRequest L c u ct dg w = Some (res, w', evs')"
        using 1(2) by (cases "doRequest L c u ct dg w") auto
      then have nf: "\<not> final res" using h by blast
      have "\<exists>p e. loop L c u ct dg (i + 1) p w' e = Some y"
        using 1(2) le d nf by (cases res) (auto simp: final_def split: if_splits)
      then obtain p e where "loop L c u ct dg (i + 1) p w' e = Some y" by blast
      from 1(1) [OF this] h show False by blast
    qed
  qed
  then show False using m never by blast
qed

lemma retry_loop_total:
  assumes f: "\<And>w. doRequest L c u ct dg w = Some (f w)"
    and m: "maxRetries c \<noteq> MaxInt"
  shows "retry_loop L c u ct dg 0 prev w evs =
           Some (case unroll f c (nat (sint (maxRetries c) + 1)) 0 prev w of
                   (r, w', rest) \<Rightarrow> (r, w', evs @ rest))"
proof (cases "0 \<le> sint (maxRetries c) + 1")
  case True
  then have "int 0 + int (nat (sint (maxRetries c) + 1)) = sint (maxRetries c) + 1" by simp
  then show ?thesis
    using retry_loop_unroll [OF f, of 0 "nat (sint (maxRetries c) + 1)" w prev evs] m by simp
next
  case False
  then have "\<not> (0 :: 64 word) \<le>s maxRetries c" by (simp add: word_sle_eq)
  moreover have "nat (sint (maxRetries c) + 1) = 0" using False by simp
  ultimately show ?thesis by (subst retry_loop_step) simp
qed

subsection \<open>QueryTrace and the instances\<close>

lemma build_url_explicit:
  "build_url c content dg =
     BaseURL @ ''?api_name=STO_TRACE_QUERY_COMMON&content='' @ QueryEscape content @
     ''&data_digest='' @ QueryEscape dg @
     ''&from_appkey='' @ QueryEscape (AppKey c) @
     ''&from_code='' @ QueryEscape (FromCode c) @
     ''&to_appkey=sto_trace_query&to_code=sto_trace_query''"
  by (simp add: build_url_def build_params_def Encode_def shouldEscape_def)

lemma QueryTrace_valid:
  assumes "Validate req = None"
  shows "QueryTrace L c req w =
           retry_loop L c (request_url L c req) (encode_request L req)
             (sign L c (encode_request L req)) 0 (None, None) w []"
  using assms by (simp add: QueryTrace_def json_Marshal_def request_url_def Let_def)

lemma QueryTrace_unroll:
  assumes valid: "Validate req = None"
    and ok: "http_NewRequest L ''GET'' (request_url L c req) = None"
    and cl: "httpClient c = Some tr"
    and m: "maxRetries c \<noteq> MaxInt"
  shows "QueryTrace L c req w =
           Some (unroll (tries L c req) c (nat (sint (maxRetries c) + 1)) 0 (None, None) w)"
  unfolding QueryTrace_valid [OF valid] tries_def
  by (subst retry_loop_total [OF attempt_eq [OF ok cl] m]) (simp split: prod.split)

lemma QueryTrace_stops:
  assumes valid: "Validate req = None"
    and ok: "http_NewRequest L ''GET'' (request_url L c req) = None"
    and cl: "httpClient c = Some tr"
    and bound: "int k \<le> sint (maxRetries c) + 1"
    and stops: "stops (tries L c req) k w"
  shows "QueryTrace L c req w = Some (unroll (tries L c req) c k 0 (None, None) w)"
proof -
  have "int 0 + int k \<le> sint (maxRetries c) + 1" using bound by simp
  then show ?thesis
    unfolding QueryTrace_valid [OF valid] tries_def
    using stops
    by (subst retry_loop_unroll [OF attempt_eq [OF ok cl], where j = 0 and k = k, simplified])
       (simp_all add: tries_def split: prod.split)
qed

lemma attempt_hd:
  assumes "http_NewRequest L ''GET'' u = None" and "httpClient c = Some tr"
  shows "\<exists>es. snd (snd (attempt L c u ct dg w)) = Read DebugField # es"
  using assms
  by (simp add: attempt_def doRequest_def Let_def split: prod.split http_result.split sum.split)

lemma unroll_from_transport:
  assumes ok: "http_NewRequest L ''GET'' u = None" and cl: "httpClient c = Some tr"
  shows "\<forall>x \<in> set (exchanges (snd (snd (unroll (attempt L c u ct dg) c k j prev w)))).
           \<exists>v. x = (sent u, fst (tr v (sent u)))"
proof (induction k arbitrary: j prev w)
  case 0
  show ?case by simp
next
  case (Suc k)
  obtain res w' evs' where a: "attempt L c u ct dg w = (res, w', evs')"
    by (cases "attempt L c u ct dg w")
  have ex: "exchanges evs' = [(sent u, fst (tr w (sent u)))]"
    using attempt_events [OF ok cl, of ct dg w] a by simp
  obtain r w'' rest where
    u: "unroll (attempt L c u ct dg) c k (Suc j) (settle res) w' = (r, w'', rest)"
    by (cases "unroll (attempt L c u ct dg) c k (Suc j) (settle res) w'")
  have ih: "\<forall>x \<in> set (exchanges rest). \<exists>v. x = (sent u, fst (tr v (sent u)))"
    using Suc.IH [of "Suc j" "settle res" w'] u by simp
  show ?case
    using a u ex ih by (auto simp: exchanges_append announce_quiet)
qed

lemma unroll_first_event:
  assumes ok: "http_NewRequest L ''GET'' u = None" and cl: "httpClient c = Some tr"
  shows "\<exists>es. snd (snd (unroll (attempt L c u ct dg) c (Suc k) 0 prev w)) = Read DebugField # es"
proof -
  obtain res w' evs' where a: "attempt L c u ct dg w = (res, w', evs')"
    by (cases "attempt L c u ct dg w")
  obtain es where es: "evs' = Read DebugField # es"
    using attempt_hd [OF ok cl, of ct dg w] a by auto
  obtain r w'' rest where
    u: "unroll (attempt L c u ct dg) c k (Suc 0) (settle res) w' = (r, w'', rest)"
    by (cases "unroll (attempt L c u ct dg) c k (Suc 0) (settle res) w'")
  show ?thesis
    using a es u by (simp add: announce_def)
qed

lemma sint_seconds:
  assumes "k \<le> 9223372036"
  shows "sint (of_nat k * Second :: 64 word) = int k * 1000000000"
proof -
  have "(of_nat k * Second :: 64 word) = of_nat (k * 1000000000)"
    by (simp add: Second_def)
  moreover have "int (k * 1000000000) < 2 ^ 63" using assms by simp
  ultimately show ?thesis by (simp add: sint_of_nat64 del: of_nat_mult)
qed

lemma client0_fields:
  "httpClient (client0 tr n) = Some tr" "maxRetries (client0 tr n) = n"
  "Debug (client0 tr n) = False"
  by (simp_all add: client0_def NewClient_def WithHTTPClient_def WithMaxRetries_def)

lemma req0_valid: "Validate req0 = None"
  by (simp add: Validate_def req0_def len_def)

lemma lib0_fields:
  "http_NewRequest lib0 m u = None"
  "json_Unmarshal lib0 hinted_body = Inr hinted"
  "json_Unmarshal lib0 clean_body = Inr clean"
  by (simp_all add: lib0_def hinted_body_def clean_body_def)

lemma hinted_clean: "ShouldRetry hinted" "\<not> ShouldRetry clean"
  by (simp_all add: ShouldRetry_def hinted_def clean_def)

lemma Validate_None_iff:
  "Validate req = None \<longleftrightarrow>
     \<not> (len (WaybillNoList req) = 0 \<or> Order req \<notin> {'''', ''asc'', ''desc''})"
  by (simp add: Validate_def)

lemma QueryTrace_invalid:
  assumes "Validate req = Some e"
  shows "QueryTrace L c req w = Some ((None, Some (InvalidRequest e)), w, [])"
  using assms by (simp add: QueryTrace_def)

lemma QueryTrace_requests:
  assumes "x \<in> set (exchanges (trace_of (QueryTrace L c req w)))"
  shows "fst x = sent (request_url L c req)"
proof (cases "Validate req")
  case (Some e)
  then show ?thesis using assms by (simp add: QueryTrace_invalid trace_of_def)
next
  case None
  let ?loop = "retry_loop L c (request_url L c req) (encode_request L req)
                 (sign L c (encode_request L req)) 0 (None, None) w []"
  obtain y where y: "?loop = Some y"
    using assms by (cases ?loop) (simp_all add: QueryTrace_valid [OF None] trace_of_def)
  from retry_loop_sound [OF y] obtain rest where
    "snd (snd y) = rest" "\<forall>x \<in> set (exchanges rest). fst x = sent (request_url L c req)"
    by auto
  then show ?thesis
    using assms y by (simp add: QueryTrace_valid [OF None] trace_of_def split: prod.splits)
qed

lemma QueryTrace_schedule:
  assumes valid: "Validate req = None"
    and ok: "http_NewRequest L ''GET'' (request_url L c req) = None"
    and cl: "httpClient c = Some tr"
    and m: "maxRetries c \<noteq> MaxInt"
  shows "\<exists>r w' evs. QueryTrace L c req w = Some (r, w', evs) \<and>
           io evs = weave 0 (exchanges evs) \<and>
           pauses evs = map (\<lambda>p. of_nat (Suc p) * Second) [0..<length (exchanges evs) - 1]"
proof -
  obtain r w' evs where run:
    "unroll (tries L c req) c (nat (sint (maxRetries c) + 1)) 0 (None, None) w = (r, w', evs)"
    by (cases "unroll (tries L c req) c (nat (sint (maxRetries c) + 1)) 0 (None, None) w")
  have q: "QueryTrace L c req w = Some (r, w', evs)"
    using QueryTrace_unroll [OF valid ok cl m, of w] run by simp
  have io: "io evs = weave 0 (exchanges evs)"
    using unroll_io [OF ok cl, of "encode_request L req" "sign L c (encode_request L req)"
        "nat (sint (maxRetries c) + 1)" 0 "(None, None)" w] run
    by (simp add: tries_def)
  have "pauses evs = pauses (io evs)" by (simp add: pauses_io)
  also have "\<dots> = map (\<lambda>p. of_nat (Suc p) * Second) [0..<length (exchanges evs) - 1]"
    unfolding io by (simp add: pauses_weave)
  finally show ?thesis using q io by blast
qed

lemma QueryTrace_exhausts:
  assumes valid: "Validate req = None"
    and ok: "http_NewRequest L ''GET'' (request_url L c req) = None"
    and cl: "httpClient c = Some tr"
    and m: "maxRetries c \<noteq> MaxInt"
    and never: "\<And>v. \<not> final (decode L (fst (tr v (sent (request_url L c req)))))"
  shows "length (exchanges (trace_of (QueryTrace L c req w))) = nat (sint (maxRetries c) + 1)"
proof -
  obtain r w' evs where run:
    "unroll (tries L c req) c (nat (sint (maxRetries c) + 1)) 0 (None, None) w = (r, w', evs)"
    by (cases "unroll (tries L c req) c (nat (sint (maxRetries c) + 1)) 0 (None, None) w")
  have q: "QueryTrace L c req w = Some (r, w', evs)"
    using QueryTrace_unroll [OF valid ok cl m, of w] run by simp
  have "length (exchanges evs) = nat (sint (maxRetries c) + 1)"
    using unroll_always [OF ok cl never, of "encode_request L req"
        "sign L c (encode_request L req)" "nat (sint (maxRetries c) + 1)" 0 "(None, None)" w] run
    by (simp add: tries_def)
  then show ?thesis using q by (simp add: trace_of_def)
qed

lemma QueryTrace_first_event:
  assumes valid: "Validate req = None"
    and ok: "http_NewRequest L ''GET'' (request_url L c req) = None"
    and cl: "httpClient c = Some tr"
    and m: "maxRetries c \<noteq> MaxInt" "0 \<le>s maxRetries c"
  shows "\<exists>es. trace_of (QueryTrace L c req w) = Read DebugField # es"
proof -
  obtain k where k: "nat (sint (maxRetries c) + 1) = Suc k"
    using m(2) by (cases "nat (sint (maxRetries c) + 1)") (simp_all add: word_sle_eq)
  obtain r w' evs where run:
    "unroll (tries L c req) c (Suc k) 0 (None, None) w = (r, w', evs)"
    by (cases "unroll (tries L c req) c (Suc k) 0 (None, None) w")
  have q: "QueryTrace L c req w = Some (r, w', evs)"
    using QueryTrace_unroll [OF valid ok cl m(1), of w] run k by simp
  obtain es where "evs = Read DebugField # es"
    using unroll_first_event [OF ok cl, of "encode_request L req"
        "sign L c (encode_request L req)" k "(None, None)" w] run
    by (auto simp: tries_def)
  then show ?thesis using q by (simp add: trace_of_def)
qed

lemma always_hinted_never:
  "\<not> final (decode lib0 (fst (always_hinted v rq)))"
  using hinted_clean(1) by (simp add: always_hinted_def decode_def lib0_fields final_def)

lemma refusing_never:
  "\<not> final (decode L (fst (refusing v rq)))"
  by (simp add: refusing_def decode_def final_def)

lemma run0_length:
  "length (exchanges (trace_of (QueryTrace lib0 (client0 always_hinted 3) req0 ()))) = 4"
proof -
  have "(3 :: go_int) \<noteq> MaxInt" by (simp add: MaxInt_def)
  then show ?thesis
    using QueryTrace_exhausts [of req0 lib0 "client0 always_hinted 3" always_hinted "()",
        OF req0_valid lib0_fields(1) client0_fields(1)]
    by (simp add: client0_fields always_hinted_never)
qed

section \<open>The claims\<close>

subsection \<open>C1: the retry bound\<close>

text \<open>
  With \<^verbatim>\<open>maxRetries = n\<close>, \<open>n \<ge> 0\<close>, and a transport stub whose every exchange yields a
  decoded response with the retry hint \<^verbatim>\<open>"true"\<close>, \<^verbatim>\<open>QueryTrace\<close> on a valid request
  performs exactly \<open>n + 1\<close> attempts and returns the response of the last attempt, the
  error being nil as it was at that attempt. The lemma shows this for every \<open>n\<close> but
  the largest \<^verbatim>\<open>int\<close>, and is instantiated at three retries, which give four attempts.
\<close>

lemma retry_bound:
  assumes valid: "Validate req = None"
    and cl: "httpClient c = Some tr"
    and ok: "http_NewRequest L ''GET'' (request_url L c req) = None"
    and stub: "\<forall>v rq. \<exists>body resp v'. tr v rq = (Response 200 body, v') \<and>
                 json_Unmarshal L body = Inr resp \<and> NeedRetry resp = ''true''"
    and n: "0 \<le>s maxRetries c" "maxRetries c \<noteq> MaxInt"
  shows "\<exists>resp body w' evs.
           QueryTrace L c req w = Some ((Some resp, None), w', evs) \<and>
           length (exchanges evs) = nat (sint (maxRetries c)) + 1 \<and>
           snd (last (exchanges evs)) = Response 200 body \<and>
           json_Unmarshal L body = Inr resp"
proof -
  define u where "u = request_url L c req"
  define k where "k = nat (sint (maxRetries c) + 1)"
  have k: "k = nat (sint (maxRetries c)) + 1" "0 < k"
    using n(1) by (simp_all add: k_def word_sle_eq)
  obtain r w' evs where run: "unroll (tries L c req) c k 0 (None, None) w = (r, w', evs)"
    by (cases "unroll (tries L c req) c k 0 (None, None) w")
  have q: "QueryTrace L c req w = Some (r, w', evs)"
    using QueryTrace_unroll [OF valid ok cl n(2), of w] run by (simp add: k_def)
  have never: "\<not> final (decode L (fst (tr v (sent u))))" for v
  proof -
    obtain body resp v' where "tr v (sent u) = (Response 200 body, v')"
      "json_Unmarshal L body = Inr resp" "NeedRetry resp = ''true''"
      using stub by blast
    then show ?thesis by (simp add: decode_def final_def ShouldRetry_def)
  qed
  have ok': "http_NewRequest L ''GET'' u = None" using ok by (simp add: u_def)
  note always = unroll_always [OF ok' cl never, of "encode_request L req"
      "sign L c (encode_request L req)" k 0 "(None, None)" w]
  have len: "length (exchanges evs) = k"
    and res: "r = settle (decode L (snd (last (exchanges evs))))"
    using always k(2) run by (simp_all add: tries_def u_def)
  have "exchanges evs \<noteq> []" using len k(2) by auto
  then have "last (exchanges evs) \<in> set (exchanges evs)" by simp
  then obtain v where v: "last (exchanges evs) = (sent u, fst (tr v (sent u)))"
    using unroll_from_transport [OF ok' cl, of "encode_request L req"
      "sign L c (encode_request L req)" k 0 "(None, None)" w] run
    by (auto simp: tries_def u_def)
  obtain body resp v' where b: "tr v (sent u) = (Response 200 body, v')"
    "json_Unmarshal L body = Inr resp"
    using stub by blast
  have "r = (Some resp, None)"
    using res v b by (simp add: decode_def settle_def)
  then show ?thesis using q len k(1) v b by auto
qed

lemma retry_bound_instance:
  "Validate req0 = None \<and> (0 :: go_int) \<le>s 3 \<and> (3 :: go_int) \<noteq> MaxInt \<and>
   (\<exists>resp body w' evs.
      QueryTrace lib0 (client0 always_hinted 3) req0 () = Some ((Some resp, None), w', evs) \<and>
      length (exchanges evs) = 4 \<and>
      snd (last (exchanges evs)) = Response 200 body \<and>
      json_Unmarshal lib0 body = Inr resp)"
proof -
  have stub: "\<forall>v rq. \<exists>body resp v'. always_hinted v rq = (Response 200 body, v') \<and>
      json_Unmarshal lib0 body = Inr resp \<and> NeedRetry resp = ''true''"
    using hinted_clean(1) by (auto simp: always_hinted_def lib0_fields ShouldRetry_def)
  have a: "(0 :: go_int) \<le>s 3" by (simp add: word_sle_eq)
  have b: "(3 :: go_int) \<noteq> MaxInt" by (simp add: MaxInt_def)
  show ?thesis
    using retry_bound [of req0 "client0 always_hinted 3" always_hinted lib0 "()",
        OF req0_valid client0_fields(1) lib0_fields(1) stub]
      a b req0_valid
    by (simp add: client0_fields)
qed

text \<open>
  C1, as it is stated for every \<open>n \<ge> 0\<close>, at the largest \<^verbatim>\<open>int\<close>: a client made with
  \<^verbatim>\<open>WithMaxRetries(math.MaxInt)\<close> and the stub that always answers with the retry hint.
  The condition \<^verbatim>\<open>i <= c.maxRetries\<close> of the counted loop holds for every \<^verbatim>\<open>i\<close>, the
  increment wraps around, and the call never returns: it does not stop after \<open>n + 1\<close>
  attempts.
\<close>

theorem retry_bound_never_returns:
  "QueryTrace lib0 (client0 always_hinted MaxInt) req0 () = None"
proof -
  have never: "\<not> final res"
    if "doRequest lib0 (client0 always_hinted MaxInt) u ct dg w = Some (res, w', evs')"
    for u ct dg w res w' evs'
  proof -
    have "doRequest lib0 (client0 always_hinted MaxInt) u ct dg w =
            Some (attempt lib0 (client0 always_hinted MaxInt) u ct dg w)"
      by (rule attempt_eq [OF lib0_fields(1) client0_fields(1)])
    then have "res = fst (attempt lib0 (client0 always_hinted MaxInt) u ct dg w)"
      using that by simp
    also have "\<dots> = decode lib0 (fst (always_hinted w (sent u)))"
      by (rule attempt_result(1) [OF lib0_fields(1) client0_fields(1)])
    also have "\<dots> = Inr hinted"
      by (simp add: always_hinted_def decode_def lib0_fields)
    finally show ?thesis using hinted_clean(1) by (simp add: final_def)
  qed
  show ?thesis
    unfolding QueryTrace_valid [OF req0_valid]
    by (rule retry_loop_diverges [OF client0_fields(2)]) (rule never)
qed

subsection \<open>C2: the loop stops at the first clean response\<close>

text \<open>
  C2. Let the transport stub answer the request of the call with results that keep the
  loop going (an error, or a response with the retry hint) at the attempts before the one
  of index \<open>d\<close>, and at that attempt with a decoded response without the retry hint. If
  that attempt is within the retries of the client, \<open>d \<le> maxRetries\<close>, then \<^verbatim>\<open>QueryTrace\<close>
  returns this response with a nil error after exactly \<open>d + 1\<close> exchanges and \<open>d\<close> sleeps,
  and makes no further attempt. With \<open>d = 1\<close>: a retry hint at the first attempt and a
  clean response at the second give the second response after exactly one retry, for a
  client with \<open>maxRetries \<ge> 1\<close>.
\<close>

theorem retry_stops:
  assumes valid: "Validate req = None"
    and cl: "httpClient c = Some tr"
    and ok: "http_NewRequest L ''GET'' (request_url L c req) = None"
    and budget: "int d \<le> sint (maxRetries c)"
    and before: "\<forall>p<d. \<not> final (decode L (result_at tr (sent (request_url L c req)) p w))"
    and at: "result_at tr (sent (request_url L c req)) d w = Response 200 body"
      "json_Unmarshal L body = Inr resp" "NeedRetry resp \<noteq> ''true''"
  shows "\<exists>evs.
           QueryTrace L c req w =
             Some ((Some resp, None), world_after tr (sent (request_url L c req)) (Suc d) w, evs) \<and>
           exchanges evs =
             map (\<lambda>p. (sent (request_url L c req), result_at tr (sent (request_url L c req)) p w))
               [0..<Suc d] \<and>
           length (pauses evs) = d"
proof -
  define u where "u = request_url L c req"
  have ok': "http_NewRequest L ''GET'' u = None" using ok by (simp add: u_def)
  have dec: "decode L (result_at tr (sent u) d w) = Inr resp"
    using at(1,2) by (simp add: decode_def u_def)
  then have fin: "final (decode L (result_at tr (sent u) d w))"
    using at(3) by (simp add: final_def ShouldRetry_def)
  have bef: "\<And>p. p < d \<Longrightarrow> \<not> final (decode L (result_at tr (sent u) p w))"
    using before by (simp add: u_def)
  note s = unroll_script [OF ok' cl bef fin, of "encode_request L req"
      "sign L c (encode_request L req)" 0 "(None, None)"]
  obtain r w' evs where run: "unroll (tries L c req) c (Suc d) 0 (None, None) w = (r, w', evs)"
    by (cases "unroll (tries L c req) c (Suc d) 0 (None, None) w")
  have st: "stops (tries L c req) (Suc d) w" using s by (simp add: tries_def u_def)
  have "int (Suc d) \<le> sint (maxRetries c) + 1" using budget by simp
  from QueryTrace_stops [OF valid ok cl this st]
  have q: "QueryTrace L c req w = Some (r, w', evs)" using run by simp
  have r: "r = (Some resp, None)"
    using s run dec by (simp add: tries_def u_def settle_def)
  have w': "w' = world_after tr (sent u) (Suc d) w"
    using s run by (simp add: tries_def u_def)
  have ex: "exchanges evs = map (\<lambda>p. (sent u, result_at tr (sent u) p w)) [0..<Suc d]"
    using s run by (simp add: tries_def u_def)
  have "io evs = weave 0 (exchanges evs)"
    using unroll_io [OF ok' cl, of "encode_request L req" "sign L c (encode_request L req)"
        "Suc d" 0 "(None, None)" w] run
    by (simp add: tries_def u_def)
  then have "pauses evs = pauses (weave 0 (exchanges evs))"
    using pauses_io [of evs] by simp
  then have "length (pauses evs) = d"
    unfolding pauses_weave ex by simp
  then show ?thesis using q r w' ex by (simp add: u_def)
qed

text \<open>
  The instance of the specification: the stub answers with the retry hint once and with a
  clean response then, the client allows three retries.
\<close>

theorem retry_stops_witness:
  "Validate req0 = None \<and> int 1 \<le> sint (3 :: go_int) \<and>
   (\<exists>evs. QueryTrace lib0 (client0 hinted_then_clean 3) req0 0 = Some ((Some clean, None), 2, evs) \<and>
      map snd (exchanges evs) = [Response 200 hinted_body, Response 200 clean_body] \<and>
      length (pauses evs) = 1)"
proof -
  let ?rq = "sent (request_url lib0 (client0 hinted_then_clean 3) req0)"
  have r0: "result_at hinted_then_clean ?rq 0 0 = Response 200 hinted_body"
    by (simp add: result_at_def hinted_then_clean_def)
  have r1: "result_at hinted_then_clean ?rq 1 0 = Response 200 clean_body"
    by (simp add: result_at_def hinted_then_clean_def)
  have before: "\<forall>p<1. \<not> final (decode lib0 (result_at hinted_then_clean ?rq p 0))"
    using hinted_clean(1) by (simp add: r0 decode_def lib0_fields final_def)
  have budget: "int 1 \<le> sint (maxRetries (client0 hinted_then_clean 3))"
    by (simp add: client0_fields)
  have nr: "NeedRetry clean \<noteq> ''true''" by (simp add: clean_def)
  have r1': "result_at hinted_then_clean ?rq (Suc 0) 0 = Response 200 clean_body"
    using r1 by simp
  have w2: "snd (hinted_then_clean (snd (hinted_then_clean 0 ?rq)) ?rq) = 2"
    by (simp add: hinted_then_clean_def)
  show ?thesis
    using retry_stops [OF req0_valid client0_fields(1) lib0_fields(1) budget before r1
        lib0_fields(3) nr]
    by (auto simp: w2 r0 r1' req0_valid)
qed

text \<open>
  Without the condition on \<^verbatim>\<open>maxRetries\<close> the statement fails: a client made with
  \<^verbatim>\<open>WithMaxRetries(0)\<close> makes one attempt and returns the response with the retry hint,
  although the stub would answer the second attempt with a clean response.
\<close>

theorem retry_stops_counterexample:
  "returned (QueryTrace lib0 (client0 hinted_then_clean 0) req0 0) = Some (Some hinted, None) \<and>
   map snd (exchanges (trace_of (QueryTrace lib0 (client0 hinted_then_clean 0) req0 0))) =
     [Response 200 hinted_body] \<and>
   result_at hinted_then_clean (sent (request_url lib0 (client0 hinted_then_clean 0) req0)) 1 0 =
     Response 200 clean_body \<and>
   json_Unmarshal lib0 clean_body = Inr clean \<and> NeedRetry clean \<noteq> ''true'' \<and>
   NeedRetry hinted = ''true''"
proof -
  let ?c = "client0 hinted_then_clean 0"
  let ?u = "request_url lib0 ?c req0"
  have m: "maxRetries ?c \<noteq> MaxInt" by (simp add: client0_fields MaxInt_def)
  have k: "nat (sint (maxRetries ?c) + 1) = Suc 0" by (simp add: client0_fields)
  obtain res w' evs' where a: "tries lib0 ?c req0 0 = (res, w', evs')"
    by (cases "tries lib0 ?c req0 (0::nat)")
  have res: "res = Inr hinted"
    using attempt_result(1) [where L = lib0 and c = ?c and u = ?u and tr = hinted_then_clean
        and ct = "encode_request lib0 req0" and dg = "sign lib0 ?c (encode_request lib0 req0)"
        and w = 0, OF lib0_fields(1) client0_fields(1)] a
    by (simp add: tries_def hinted_then_clean_def decode_def lib0_fields)
  have ex: "exchanges evs' = [(sent ?u, Response 200 hinted_body)]"
    using attempt_events(1) [where L = lib0 and c = ?c and u = ?u and tr = hinted_then_clean
        and ct = "encode_request lib0 req0" and dg = "sign lib0 ?c (encode_request lib0 req0)"
        and w = 0, OF lib0_fields(1) client0_fields(1)] a
    by (simp add: tries_def hinted_then_clean_def)
  have "QueryTrace lib0 ?c req0 0 = Some (unroll (tries lib0 ?c req0) ?c (Suc 0) 0 (None, None) 0)"
    using QueryTrace_unroll [OF req0_valid lib0_fields(1) client0_fields(1) m, of 0] k by simp
  moreover have "result_at hinted_then_clean (sent ?u) 1 0 = Response 200 clean_body"
    by (simp add: result_at_def hinted_then_clean_def)
  moreover have "NeedRetry clean \<noteq> ''true''" "NeedRetry hinted = ''true''"
    by (simp_all add: clean_def hinted_def)
  ultimately show ?thesis
    using a res ex hinted_clean(1)
    by (simp add: returned_def trace_of_def final_def settle_def exchanges_append announce_quiet
          lib0_fields)
qed

subsection \<open>C3: validation\<close>

text \<open>
  C3. \<^verbatim>\<open>QueryTrace\<close> returns the error \<^verbatim>\<open>invalid request: ...\<close> if and only if the list of
  waybill numbers is empty or the order is none of \<^verbatim>\<open>""\<close>, \<^verbatim>\<open>"asc"\<close>, \<^verbatim>\<open>"desc"\<close>; and then
  it returns a nil response, leaves the world as it was and has no event at all: no HTTP
  exchange and no sleep.
\<close>

theorem validation_iff:
  "((\<exists>resp msg w' evs.
       QueryTrace L c req w = Some ((resp, Some (InvalidRequest msg)), w', evs)) \<longleftrightarrow>
    (len (WaybillNoList req) = 0 \<or> Order req \<notin> {'''', ''asc'', ''desc''})) \<and>
   ((len (WaybillNoList req) = 0 \<or> Order req \<notin> {'''', ''asc'', ''desc''}) \<longrightarrow>
    (\<exists>msg. QueryTrace L c req w = Some ((None, Some (InvalidRequest msg)), w, [])))"
proof (cases "Validate req")
  case None
  then have valid: "\<not> (len (WaybillNoList req) = 0 \<or> Order req \<notin> {'''', ''asc'', ''desc''})"
    by (simp add: Validate_None_iff)
  have "\<not> (\<exists>resp msg w' evs.
       QueryTrace L c req w = Some ((resp, Some (InvalidRequest msg)), w', evs))"
  proof
    assume "\<exists>resp msg w' evs.
       QueryTrace L c req w = Some ((resp, Some (InvalidRequest msg)), w', evs)"
    then obtain resp msg w' evs where
      "retry_loop L c (request_url L c req) (encode_request L req)
         (sign L c (encode_request L req)) 0 (None, None) w [] =
       Some ((resp, Some (InvalidRequest msg)), w', evs)"
      by (auto simp: QueryTrace_valid [OF None])
    from retry_loop_sound [OF this] show False by simp
  qed
  then show ?thesis using valid by blast
next
  case (Some e)
  then have "len (WaybillNoList req) = 0 \<or> Order req \<notin> {'''', ''asc'', ''desc''}"
    using Validate_None_iff [of req] by simp
  moreover have "QueryTrace L c req w = Some ((None, Some (InvalidRequest e)), w, [])"
    by (rule QueryTrace_invalid [OF Some])
  ultimately show ?thesis by blast
qed

theorem validation_iff_witness:
  "len (WaybillNoList \<lparr>Order = ''asc'', WaybillNoList = Some []\<rparr>) = 0 \<and>
   (\<exists>msg. QueryTrace lib0 (client0 always_hinted 3) \<lparr>Order = ''asc'', WaybillNoList = Some []\<rparr> () =
      Some ((None, Some (InvalidRequest msg)), (), [])) \<and>
   ''up'' \<notin> {'''', ''asc'', ''desc''} \<and>
   (\<exists>msg. QueryTrace lib0 (client0 always_hinted 3) \<lparr>Order = ''up'', WaybillNoList = Some [''773'']\<rparr> () =
      Some ((None, Some (InvalidRequest msg)), (), [])) \<and>
   \<not> (\<exists>resp msg w' evs. QueryTrace lib0 (client0 always_hinted 3) req0 () =
      Some ((resp, Some (InvalidRequest msg)), w', evs))"
  using validation_iff [of lib0 "client0 always_hinted 3"
      "\<lparr>Order = ''asc'', WaybillNoList = Some []\<rparr>" "()"]
    validation_iff [of lib0 "client0 always_hinted 3"
      "\<lparr>Order = ''up'', WaybillNoList = Some [''773'']\<rparr>" "()"]
    validation_iff [of lib0 "client0 always_hinted 3" req0 "()"]
  by (simp add: len_def req0_def)

subsection \<open>C5: the request on the wire\<close>

text \<open>
  C5. Every exchange of a call of \<^verbatim>\<open>QueryTrace\<close> on a valid request is a GET of the fixed
  endpoint with a query of exactly the seven parameters \<^verbatim>\<open>api_name\<close>, \<^verbatim>\<open>content\<close>,
  \<^verbatim>\<open>data_digest\<close>, \<^verbatim>\<open>from_appkey\<close>, \<^verbatim>\<open>from_code\<close>, \<^verbatim>\<open>to_appkey\<close> and \<^verbatim>\<open>to_code\<close> (in the order
  of their names, in which \<^verbatim>\<open>Encode\<close> writes them), the values in the encoding of
  \<^verbatim>\<open>url.QueryEscape\<close>; the content is the JSON object with the field \<^verbatim>\<open>order\<close> first and
  the field \<^verbatim>\<open>waybillNoList\<close> second.
\<close>

theorem request_shape:
  assumes valid: "Validate req = None"
    and x: "(rq, x) \<in> set (exchanges (trace_of (QueryTrace L c req w)))"
  shows \<open>Method rq = ''GET'' \<and>
         URL rq =
           BaseURL @ ''?api_name=STO_TRACE_QUERY_COMMON&content='' @
           QueryEscape (encode_request L req) @
           ''&data_digest='' @ QueryEscape (sign L c (encode_request L req)) @
           ''&from_appkey='' @ QueryEscape (AppKey c) @
           ''&from_code='' @ QueryEscape (FromCode c) @
           ''&to_appkey=sto_trace_query&to_code=sto_trace_query'' \<and>
         (\<exists>ws. WaybillNoList req = Some ws \<and>
            encode_request L req =
              ''{"order":'' @ json_String L (Order req) @ '',"waybillNoList":['' @
              join '','' (map (json_String L) ws) @ '']}'')\<close>
proof -
  have "fst (rq, x) = sent (request_url L c req)"
    by (rule QueryTrace_requests [OF x])
  then have rq: "rq = sent (request_url L c req)" by simp
  have "len (WaybillNoList req) \<noteq> 0"
    using valid by (simp add: Validate_None_iff)
  then obtain ws where ws: "WaybillNoList req = Some ws"
    by (cases "WaybillNoList req") (simp_all add: len_def)
  show ?thesis
    unfolding rq
    by (simp add: sent_def request_url_def build_url_explicit ws encode_request_def)
qed

theorem request_shape_witness:
  \<open>Validate req0 = None \<and>
   exchanges (trace_of (QueryTrace lib0 (client0 always_hinted 3) req0 ())) \<noteq> [] \<and>
   Method (fst (hd (exchanges (trace_of (QueryTrace lib0 (client0 always_hinted 3) req0 ()))))) =
     ''GET'' \<and>
   URL (fst (hd (exchanges (trace_of (QueryTrace lib0 (client0 always_hinted 3) req0 ()))))) =
     ''https://cloudinter-linkgateway.sto.cn/gateway/link.do?api_name=STO_TRACE_QUERY_COMMON'' @
     ''&content=%7B%22order%22%3A%22asc%22%2C%22waybillNoList%22%3A%5B%22773%22%5D%7D'' @
     ''&data_digest='' @
     QueryEscape (sign lib0 (client0 always_hinted 3) (encode_request lib0 req0)) @
     ''&from_appkey=key&from_code=code&to_appkey=sto_trace_query&to_code=sto_trace_query''\<close>
proof -
  let ?xs = "exchanges (trace_of (QueryTrace lib0 (client0 always_hinted 3) req0 ()))"
  have ne: "?xs \<noteq> []" using run0_length by auto
  then have "(fst (hd ?xs), snd (hd ?xs)) \<in> set ?xs" by simp
  note s = request_shape [OF req0_valid this]
  have ct: \<open>encode_request lib0 req0 = ''{"order":"asc","waybillNoList":["773"]}''\<close>
    by (simp add: encode_request_def lib0_def req0_def)
  have esc: \<open>QueryEscape ''{"order":"asc","waybillNoList":["773"]}'' =
      ''%7B%22order%22%3A%22asc%22%2C%22waybillNoList%22%3A%5B%22773%22%5D%7D''\<close>
    by code_simp
  have k: "QueryEscape (AppKey (client0 always_hinted 3)) = ''key''"
    "QueryEscape (FromCode (client0 always_hinted 3)) = ''code''"
    by (simp_all add: client0_def NewClient_def WithHTTPClient_def WithMaxRetries_def
          shouldEscape_def Let_def)
  show ?thesis
    using s [unfolded ct esc k] ne req0_valid
    by (simp add: ct BaseURL_def del: QueryEscape.simps)
qed

subsection \<open>C6: a negative number of retries\<close>

text \<open>
  C6. A client with a negative \<^verbatim>\<open>maxRetries\<close> makes no attempt on a valid request:
  \<^verbatim>\<open>QueryTrace\<close> returns a nil response and a nil error, and has no event.
\<close>

theorem negative_retries:
  assumes "maxRetries c <s 0" and "Validate req = None"
  shows "QueryTrace L c req w = Some ((None, None), w, [])"
proof -
  have "\<not> (0 :: go_int) \<le>s maxRetries c"
    using assms(1) by (simp add: word_sle_eq word_sless_alt)
  then show ?thesis
    unfolding QueryTrace_valid [OF assms(2)] by (subst retry_loop_step) simp
qed

theorem negative_retries_witness:
  "(- 1 :: go_int) <s 0 \<and> Validate req0 = None \<and>
   QueryTrace lib0
     (NewClient (\<lambda>t. always_hinted) ''key'' ''secret'' ''code'' [WithMaxRetries (- 1)]) req0 () =
     Some ((None, None), (), [])"
proof -
  have "maxRetries (NewClient (\<lambda>t. always_hinted) ''key'' ''secret'' ''code''
          [WithMaxRetries (- 1)]) <s 0"
    by (simp add: NewClient_def WithMaxRetries_def)
  from negative_retries [OF this req0_valid] show ?thesis
    by (simp add: req0_valid)
qed

subsection \<open>C7: one HTTP attempt\<close>

text \<open>
  C7. An attempt whose request \<^verbatim>\<open>http.NewRequest\<close> accepts makes one exchange and
  returns by its result: the error \<^verbatim>\<open>request failed\<close> when \<^verbatim>\<open>client.Do\<close> fails and the error
  \<^verbatim>\<open>read response failed\<close> when the body cannot be read (the two ways in which the
  connection fails); the error \<^verbatim>\<open>API returned non-200 status code\<close>, whose text has the
  status code and the whole body, when the status is not 200; the error
  \<^verbatim>\<open>unmarshal response failed\<close> when the status is 200 and the body does not decode; the
  decoded response and no error otherwise.
\<close>

theorem single_attempt:
  assumes ok: "http_NewRequest L ''GET'' u = None"
    and cl: "httpClient c = Some tr"
    and x: "tr w (sent u) = (x, w')"
  shows "\<exists>evs.
           exchanges evs = [(sent u, x)] \<and>
           (\<forall>e. x = DoError e \<longrightarrow>
              doRequest L c u ct dg w = Some (Inl (RequestFailed e), w', evs)) \<and>
           (\<forall>e. x = ReadError e \<longrightarrow>
              doRequest L c u ct dg w = Some (Inl (ReadResponseFailed e), w', evs)) \<and>
           (\<forall>status body. x = Response status body \<and> status \<noteq> 200 \<longrightarrow>
              doRequest L c u ct dg w = Some (Inl (Non200Status status body), w', evs) \<and>
              Error (Non200Status status body) =
                ''API returned non-200 status code: '' @ itoa status @ '', body: '' @ body) \<and>
           (\<forall>body e. x = Response 200 body \<and> json_Unmarshal L body = Inl e \<longrightarrow>
              doRequest L c u ct dg w = Some (Inl (UnmarshalFailed e body), w', evs)) \<and>
           (\<forall>body result. x = Response 200 body \<and> json_Unmarshal L body = Inr result \<longrightarrow>
              doRequest L c u ct dg w = Some (Inr result, w', evs))"
proof -
  have d: "doRequest L c u ct dg w = Some (attempt L c u ct dg w)"
    by (rule attempt_eq [OF ok cl])
  have r: "fst (attempt L c u ct dg w) = decode L x"
    and v: "fst (snd (attempt L c u ct dg w)) = w'"
    using attempt_result [OF ok cl, of ct dg w] x by simp_all
  have e: "exchanges (snd (snd (attempt L c u ct dg w))) = [(sent u, x)]"
    using attempt_events(1) [OF ok cl, of ct dg w] x by simp
  obtain res w'' evs where a: "attempt L c u ct dg w = (res, w'', evs)"
    by (cases "attempt L c u ct dg w")
  then have q: "doRequest L c u ct dg w = Some (decode L x, w', evs)"
    using d r v by simp
  have "exchanges evs = [(sent u, x)]" using e a by simp
  then show ?thesis
    using q by (intro exI [of _ evs]) (simp add: decode_def)
qed

theorem single_attempt_witness:
  "http_NewRequest lib0 ''GET'' BaseURL = None \<and>
   httpClient (client0 failing500 3) = Some failing500 \<and>
   failing500 () (sent BaseURL) = (Response 500 ''oops'', ()) \<and>
   (\<exists>evs. exchanges evs = [(sent BaseURL, Response 500 ''oops'')] \<and>
      doRequest lib0 (client0 failing500 3) BaseURL [] [] () =
        Some (Inl (Non200Status 500 ''oops''), (), evs)) \<and>
   Error (Non200Status 500 ''oops'') = ''API returned non-200 status code: 500, body: oops''"
proof -
  have x: "failing500 () (sent BaseURL) = (Response 500 ''oops'', ())"
    by (simp add: failing500_def)
  have i: "itoa 500 = ''500''"
    by code_simp
  show ?thesis
    using single_attempt [where L = lib0 and c = "client0 failing500 3" and tr = failing500
        and u = BaseURL and w = "()" and ct = "[]" and dg = "[]",
        OF lib0_fields(1) client0_fields(1) x] x i
    by (auto simp: lib0_fields client0_fields)
qed

subsection \<open>C8: linear backoff\<close>

text \<open>
  For a client whose \<^verbatim>\<open>maxRetries\<close> is not the largest \<^verbatim>\<open>int\<close>, the exchanges and sleeps of
  a call on a valid request follow the schedule \<open>weave\<close>: no sleep before the first
  exchange or after the last, and between the exchange of number \<open>k\<close> and the next one
  sleep, of \<open>k\<close> times \<^verbatim>\<open>time.Second\<close> computed in 64 bits, which is \<open>k\<close> seconds as long as
  \<open>k \<le> 9223372036\<close>.
\<close>

lemma linear_backoff:
  assumes valid: "Validate req = None"
    and cl: "httpClient c = Some tr"
    and ok: "http_NewRequest L ''GET'' (request_url L c req) = None"
    and m: "maxRetries c \<noteq> MaxInt"
  shows "\<exists>r w' evs.
           QueryTrace L c req w = Some (r, w', evs) \<and>
           io evs = weave 0 (exchanges evs) \<and>
           length (pauses evs) = length (exchanges evs) - 1 \<and>
           (\<forall>p < length (pauses evs).
              pauses evs ! p = of_nat (p + 1) * Second \<and>
              (p + 1 \<le> 9223372036 \<longrightarrow> sint (pauses evs ! p) = (int p + 1) * 1000000000))"
proof -
  obtain r w' evs where q: "QueryTrace L c req w = Some (r, w', evs)"
    and io: "io evs = weave 0 (exchanges evs)"
    and ps: "pauses evs = map (\<lambda>p. of_nat (Suc p) * Second) [0..<length (exchanges evs) - 1]"
    using QueryTrace_schedule [OF valid ok cl m, of w] by blast
  have len: "length (pauses evs) = length (exchanges evs) - 1"
    unfolding ps by simp
  have "pauses evs ! p = of_nat (p + 1) * Second \<and>
        (p + 1 \<le> 9223372036 \<longrightarrow> sint (pauses evs ! p) = (int p + 1) * 1000000000)"
    if "p < length (pauses evs)" for p
  proof -
    have n: "pauses evs ! p = of_nat (Suc p) * Second"
      using that len unfolding ps by simp
    moreover have "sint (of_nat (Suc p) * Second :: 64 word) = int (Suc p) * 1000000000"
      if "p + 1 \<le> 9223372036"
      using that by (intro sint_seconds) simp
    ultimately show ?thesis by (simp add: algebra_simps)
  qed
  then show ?thesis using q io len by blast
qed

text \<open>
  C8, the sleep before the retry of number \<open>k\<close> lasts \<open>k\<close> seconds, at
  \<open>k = 9223372037\<close>: for a client made with \<^verbatim>\<open>WithMaxRetries(9223372037)\<close> and a transport
  that refuses every connection, the product \<^verbatim>\<open>time.Duration(i+1) * time.Second\<close> of line 219
  overflows, and the duration given to \<^verbatim>\<open>time.Sleep\<close> before that retry is negative.
\<close>

theorem backoff_overflow:
  "sint (pauses (trace_of (QueryTrace lib0 (client0 refusing 9223372037) req0 ())) ! 9223372036)
     = - 9223372036709551616"
proof -
  let ?c = "client0 refusing 9223372037"
  have m: "maxRetries ?c \<noteq> MaxInt" by (simp add: client0_fields MaxInt_def)
  have n: "nat (sint (maxRetries ?c) + 1) = 9223372038" by (simp add: client0_fields)
  have len: "length (exchanges (trace_of (QueryTrace lib0 ?c req0 ()))) = 9223372038"
    using QueryTrace_exhausts [of req0 lib0 ?c refusing "()",
        OF req0_valid lib0_fields(1) client0_fields(1) m refusing_never] n
    by simp
  obtain r w' evs where q: "QueryTrace lib0 ?c req0 () = Some (r, w', evs)"
    and ps: "pauses evs = map (\<lambda>p. of_nat (Suc p) * Second) [0..<length (exchanges evs) - 1]"
    using QueryTrace_schedule [OF req0_valid lib0_fields(1) client0_fields(1) m, of "()"]
    by blast
  have "length (exchanges evs) = 9223372038" using len q by (simp add: trace_of_def)
  then have "pauses evs = map (\<lambda>p. of_nat (Suc p) * Second) [0..<9223372037]"
    using ps by simp
  then have "pauses evs ! 9223372036 = (of_nat (Suc 9223372036) * Second :: 64 word)"
    by simp
  then have "pauses evs ! 9223372036 = (9223372037000000000 :: 64 word)"
    by (simp add: Second_def)
  then show ?thesis using q by (simp add: trace_of_def)
qed

subsection \<open>C9: every attempt sends the same request\<close>

text \<open>
  C9. The request of every exchange of a call of \<^verbatim>\<open>QueryTrace\<close> is the request of its
  first exchange: the URL, which carries the content and the digest, is computed once
  before the loop.
\<close>

theorem same_request:
  "\<forall>x \<in> set (exchanges (trace_of (QueryTrace L c req w))).
     fst x = fst (hd (exchanges (trace_of (QueryTrace L c req w))))"
proof
  fix x
  assume x: "x \<in> set (exchanges (trace_of (QueryTrace L c req w)))"
  then have "exchanges (trace_of (QueryTrace L c req w)) \<noteq> []" by auto
  then have "hd (exchanges (trace_of (QueryTrace L c req w)))
               \<in> set (exchanges (trace_of (QueryTrace L c req w)))"
    by simp
  then show "fst x = fst (hd (exchanges (trace_of (QueryTrace L c req w))))"
    using QueryTrace_requests [OF x] QueryTrace_requests by metis
qed

theorem same_request_witness:
  "length (exchanges (trace_of (QueryTrace lib0 (client0 always_hinted 3) req0 ()))) = 4 \<and>
   fst (last (exchanges (trace_of (QueryTrace lib0 (client0 always_hinted 3) req0 ())))) =
   fst (hd (exchanges (trace_of (QueryTrace lib0 (client0 always_hinted 3) req0 ()))))"
proof -
  let ?xs = "exchanges (trace_of (QueryTrace lib0 (client0 always_hinted 3) req0 ()))"
  have "?xs \<noteq> []" using run0_length by auto
  then have "last ?xs \<in> set ?xs" by simp
  then show ?thesis
    using same_request [of lib0 "client0 always_hinted 3" req0 "()"] run0_length by blast
qed

subsection \<open>C10: the lock\<close>

text \<open>
  C10, every read of the debug flag during a call of \<^verbatim>\<open>QueryTrace\<close> is made under the
  lock that \<^verbatim>\<open>EnableDebug\<close> and \<^verbatim>\<open>DisableDebug\<close> take, at a call on a valid request: the
  trace does not keep the discipline \<open>guarded\<close>, since \<^verbatim>\<open>doRequest\<close> begins with a read of
  \<^verbatim>\<open>c.Debug\<close> (line 228) before it takes the read lock (line 244).
\<close>

theorem debug_read_unguarded:
  "\<not> guarded False (trace_of (QueryTrace lib0 (client0 always_hinted 3) req0 ()))"
proof -
  have "(3 :: go_int) \<noteq> MaxInt" "(0 :: go_int) \<le>s 3"
    by (simp_all add: MaxInt_def word_sle_eq)
  then obtain es where
    "trace_of (QueryTrace lib0 (client0 always_hinted 3) req0 ()) = Read DebugField # es"
    using QueryTrace_first_event [of req0 lib0 "client0 always_hinted 3" always_hinted "()",
        OF req0_valid lib0_fields(1) client0_fields(1)]
    by (auto simp: client0_fields)
  then show ?thesis by simp
qed

end
